theory Spec2Isabelle
  imports Main "HOL-Library.Word"
begin

section \<open>The static queue of squeue.hpp, version 1.1.0\<close>

text \<open>
  \<^verbatim>\<open>SQueue<T_QUEUE_ELEMENTS, QUEUE_SIZE>\<close> is a ring buffer over a fixed array. The
  template parameter \<^verbatim>\<open>QUEUE_SIZE\<close> (a \<^verbatim>\<open>uint32_t\<close>) is passed to every operation
  that uses it; the three \<^verbatim>\<open>uint32_t\<close> members are 32-bit words, so every \<^verbatim>\<open>+\<close> and
  \<^verbatim>\<open>-\<close> wraps as in C++. The array \<^verbatim>\<open>buffer[QUEUE_SIZE]\<close> is a list; an index outside
  the array is undefined behaviour in C++ and is the value \<open>Inl OutOfBounds\<close> here.
  A program with \<^verbatim>\<open>QUEUE_SIZE == 0\<close> is ill-formed (an array of no elements), so the
  theorems below are about \<open>0 < QUEUE_SIZE\<close>.
\<close>

datatype t_squeue_rc = OK | OVERFLOW | ERROR

datatype fault = OutOfBounds

record 'a SQueue =
  buffer :: "'a list"
  queue_head :: "32 word"
  queue_tail :: "32 word"
  num_elements_stored :: "32 word"
  queue_overflow :: bool

definition array_read :: "'a list \<Rightarrow> nat \<Rightarrow> fault + 'a" where
  "array_read xs i = (if i < length xs then Inr (xs ! i) else Inl OutOfBounds)"

definition array_write :: "'a list \<Rightarrow> nat \<Rightarrow> 'a \<Rightarrow> fault + 'a list" where
  "array_write xs i v = (if i < length xs then Inr (xs[i := v]) else Inl OutOfBounds)"

text \<open>
  The constructor sets the three indices and the flag and leaves the array as it finds it:
  \<open>buf\<close> is the array's content at construction, whatever it is.
\<close>

definition SQueue_ctor :: "'a list \<Rightarrow> 'a SQueue" where
  "SQueue_ctor buf =
     \<lparr>buffer = buf, queue_head = 0, queue_tail = 0, num_elements_stored = 0,
      queue_overflow = False\<rparr>"

definition clear :: "'a SQueue \<Rightarrow> 'a SQueue" where
  "clear q =
     q\<lparr>queue_head := 0, queue_tail := 0, num_elements_stored := 0,
       queue_overflow := False\<rparr>"

definition size_q :: "'a SQueue \<Rightarrow> 32 word" where
  "size_q q = num_elements_stored q"

definition empty_q :: "'a SQueue \<Rightarrow> bool" where
  "empty_q q = (num_elements_stored q = 0)"

definition full :: "32 word \<Rightarrow> 'a SQueue \<Rightarrow> bool" where
  "full QUEUE_SIZE q = (num_elements_stored q \<ge> QUEUE_SIZE)"

text \<open>
  \<^verbatim>\<open>front()\<close> and \<^verbatim>\<open>back()\<close> return a pointer into the array, or \<^verbatim>\<open>nullptr\<close>. The
  model returns what the pointer points to: \<open>Inr None\<close> for \<^verbatim>\<open>nullptr\<close>, \<open>Inr (Some x)\<close>
  for a pointer to a slot that holds \<open>x\<close>.
\<close>

definition front :: "'a SQueue \<Rightarrow> fault + 'a option" where
  "front q =
     (if empty_q q then Inr None
      else map_sum id Some (array_read (buffer q) (unat (queue_tail q))))"

definition back_q :: "32 word \<Rightarrow> 'a SQueue \<Rightarrow> fault + 'a option" where
  "back_q QUEUE_SIZE q =
     (if empty_q q then Inr None
      else
        let last_index = (if queue_head q = 0 then QUEUE_SIZE - 1 else queue_head q - 1)
        in map_sum id Some (array_read (buffer q) (unat last_index)))"

definition push :: "32 word \<Rightarrow> 'a \<Rightarrow> 'a SQueue \<Rightarrow> fault + (t_squeue_rc \<times> 'a SQueue)" where
  "push QUEUE_SIZE element q =
     (let q1 = (if full QUEUE_SIZE q
                then q\<lparr>queue_overflow := True,
                       queue_tail := (queue_tail q + 1) mod QUEUE_SIZE\<rparr>
                else q\<lparr>queue_overflow := False,
                       num_elements_stored := num_elements_stored q + 1\<rparr>)
      in case array_write (buffer q1) (unat (queue_head q1)) element of
           Inl f \<Rightarrow> Inl f
         | Inr b \<Rightarrow>
             let q2 = q1\<lparr>buffer := b, queue_head := (queue_head q1 + 1) mod QUEUE_SIZE\<rparr>
             in Inr (if queue_overflow q2 then OVERFLOW else OK, q2))"

definition pop :: "32 word \<Rightarrow> 'a SQueue \<Rightarrow> 'a SQueue" where
  "pop QUEUE_SIZE q =
     (if empty_q q then q
      else q\<lparr>queue_tail := (queue_tail q + 1) mod QUEUE_SIZE,
             num_elements_stored := num_elements_stored q - 1,
             queue_overflow := False\<rparr>)"

text \<open>
  \<^verbatim>\<open>contains\<close> compares with the \<^verbatim>\<open>operator==\<close> of the element type, which the
  \<^verbatim>\<open>static_assert\<close> requires and the program supplies: it is the parameter \<open>eq\<close>. The loop
  runs over a \<^verbatim>\<open>size_t i\<close>; the sum \<^verbatim>\<open>queue_tail + i\<close> and the remainder are computed in
  \<^verbatim>\<open>size_t\<close>, taken as 64 bits wide (LP64). The loop is the recursion on \<open>i\<close>; it ends
  because \<open>i\<close> stays at most \<^verbatim>\<open>num_elements_stored\<close>.
\<close>

function contains_loop ::
  "('a \<Rightarrow> 'a \<Rightarrow> bool) \<Rightarrow> 32 word \<Rightarrow> 'a \<Rightarrow> 'a SQueue \<Rightarrow> 64 word \<Rightarrow> fault + bool" where
  "contains_loop eq QUEUE_SIZE element q i =
     (if i < ucast (num_elements_stored q) then
        (let index = (ucast (queue_tail q) + i) mod ucast QUEUE_SIZE
         in case array_read (buffer q) (unat index) of
              Inl f \<Rightarrow> Inl f
            | Inr v \<Rightarrow>
                if eq element v then Inr True
                else contains_loop eq QUEUE_SIZE element q (i + 1))
      else Inr False)"
  by pat_completeness auto
termination
proof (relation "measure (\<lambda>(eq, QUEUE_SIZE, element, q, i).
                   unat (ucast (num_elements_stored q) :: 64 word) - unat i)")
  show "wf (measure (\<lambda>(eq :: 'a \<Rightarrow> 'a \<Rightarrow> bool, QUEUE_SIZE, element, q :: 'a SQueue, i).
              unat (ucast (num_elements_stored q) :: 64 word) - unat i))"
    by simp
next
  fix eq :: "'a \<Rightarrow> 'a \<Rightarrow> bool" and QUEUE_SIZE :: "32 word" and element :: 'a
    and q :: "'a SQueue" and i :: "64 word" and index x2
  let ?c = "ucast (num_elements_stored q) :: 64 word"
  assume lt: "i < ?c"
  then have below: "unat i < unat ?c"
    by (simp add: word_less_nat_alt)
  moreover have "unat ?c < 2 ^ LENGTH(64)"
    by (rule unsigned_less)
  ultimately have "unat i + unat (1 :: 64 word) < 2 ^ LENGTH(64)"
    by (simp del: unsigned_less)
  then have "unat (i + 1) = unat i + unat (1 :: 64 word)"
    by (rule unat_add_lem [THEN iffD1])
  with below show "((eq, QUEUE_SIZE, element, q, i + 1), eq, QUEUE_SIZE, element, q, i)
      \<in> measure (\<lambda>(eq, QUEUE_SIZE, element, q, i).
                   unat (ucast (num_elements_stored q) :: 64 word) - unat i)"
    by simp
qed

declare contains_loop.simps [simp del]

definition contains ::
  "('a \<Rightarrow> 'a \<Rightarrow> bool) \<Rightarrow> 32 word \<Rightarrow> 'a \<Rightarrow> 'a SQueue \<Rightarrow> fault + bool" where
  "contains eq QUEUE_SIZE element q = contains_loop eq QUEUE_SIZE element q 0"

section \<open>Version 1.0.0\<close>

text \<open>
  The first release keeps the same members (the flag is called \<^verbatim>\<open>buffer_overflow\<close>),
  advances \<^verbatim>\<open>queue_head\<close> before it writes, reads the front one slot after
  \<^verbatim>\<open>queue_tail\<close>, and does not touch the flag in a push that finds room.
\<close>

datatype t_overflow = BUFFER_OK | BUFFER_OVERFLOW

record 'a SQueue_v100 =
  buffer_v100 :: "'a list"
  queue_head_v100 :: "32 word"
  queue_tail_v100 :: "32 word"
  num_elements_stored_v100 :: "32 word"
  buffer_overflow :: bool

definition SQueue_ctor_v100 :: "'a list \<Rightarrow> 'a SQueue_v100" where
  "SQueue_ctor_v100 buf =
     \<lparr>buffer_v100 = buf, queue_head_v100 = 0, queue_tail_v100 = 0,
      num_elements_stored_v100 = 0, buffer_overflow = False\<rparr>"

definition clear_v100 :: "'a SQueue_v100 \<Rightarrow> 'a SQueue_v100" where
  "clear_v100 q =
     q\<lparr>queue_head_v100 := 0, queue_tail_v100 := 0, num_elements_stored_v100 := 0,
       buffer_overflow := False\<rparr>"

definition empty_v100 :: "'a SQueue_v100 \<Rightarrow> bool" where
  "empty_v100 q = (num_elements_stored_v100 q = 0)"

definition size_v100 :: "'a SQueue_v100 \<Rightarrow> 32 word" where
  "size_v100 q = num_elements_stored_v100 q"

definition full_v100 :: "32 word \<Rightarrow> 'a SQueue_v100 \<Rightarrow> bool" where
  "full_v100 QUEUE_SIZE q = (size_v100 q \<ge> QUEUE_SIZE)"

definition front_v100 :: "32 word \<Rightarrow> 'a SQueue_v100 \<Rightarrow> fault + 'a option" where
  "front_v100 QUEUE_SIZE q =
     (if empty_v100 q then Inr None
      else map_sum id Some
             (array_read (buffer_v100 q) (unat ((queue_tail_v100 q + 1) mod QUEUE_SIZE))))"

definition back_v100 :: "'a SQueue_v100 \<Rightarrow> fault + 'a option" where
  "back_v100 q =
     (if empty_v100 q then Inr None
      else map_sum id Some (array_read (buffer_v100 q) (unat (queue_head_v100 q))))"

definition push_v100 ::
  "32 word \<Rightarrow> 'a \<Rightarrow> 'a SQueue_v100 \<Rightarrow> fault + (t_overflow \<times> 'a SQueue_v100)" where
  "push_v100 QUEUE_SIZE element q =
     (let q1 = (if full_v100 QUEUE_SIZE q
                then q\<lparr>buffer_overflow := True,
                       queue_tail_v100 := (queue_tail_v100 q + 1) mod QUEUE_SIZE\<rparr>
                else q\<lparr>num_elements_stored_v100 := num_elements_stored_v100 q + 1\<rparr>);
          q2 = q1\<lparr>queue_head_v100 := (queue_head_v100 q1 + 1) mod QUEUE_SIZE\<rparr>
      in case array_write (buffer_v100 q2) (unat (queue_head_v100 q2)) element of
           Inl f \<Rightarrow> Inl f
         | Inr b \<Rightarrow>
             let q3 = q2\<lparr>buffer_v100 := b\<rparr>
             in Inr (if buffer_overflow q3 then BUFFER_OVERFLOW else BUFFER_OK, q3))"

definition pop_v100 :: "32 word \<Rightarrow> 'a SQueue_v100 \<Rightarrow> 'a SQueue_v100" where
  "pop_v100 QUEUE_SIZE q =
     (if empty_v100 q then q
      else q\<lparr>queue_tail_v100 := (queue_tail_v100 q + 1) mod QUEUE_SIZE,
             num_elements_stored_v100 := num_elements_stored_v100 q - 1,
             buffer_overflow := False\<rparr>)"

section \<open>Sequences of operations and what a caller observes\<close>

datatype 'a operation = Push 'a | Pop | Clear

text \<open>The numeric values of the two result enumerations, as the headers give them.\<close>

fun rc_code :: "t_squeue_rc \<Rightarrow> nat" where
  "rc_code OK = 0"
| "rc_code OVERFLOW = 1"
| "rc_code ERROR = 255"

fun overflow_code :: "t_overflow \<Rightarrow> nat" where
  "overflow_code BUFFER_OK = 0"
| "overflow_code BUFFER_OVERFLOW = 1"

text \<open>
  One operation on a queue, with the code a push returns (\<open>None\<close> for the two
  \<^verbatim>\<open>void\<close> operations).
\<close>

fun apply_op :: "32 word \<Rightarrow> 'a operation \<Rightarrow> 'a SQueue \<Rightarrow> fault + (nat option \<times> 'a SQueue)" where
  "apply_op QUEUE_SIZE (Push e) q =
     (case push QUEUE_SIZE e q of
        Inl f \<Rightarrow> Inl f
      | Inr (rc, q') \<Rightarrow> Inr (Some (rc_code rc), q'))"
| "apply_op QUEUE_SIZE Pop q = Inr (None, pop QUEUE_SIZE q)"
| "apply_op QUEUE_SIZE Clear q = Inr (None, clear q)"

fun apply_op_v100 ::
  "32 word \<Rightarrow> 'a operation \<Rightarrow> 'a SQueue_v100 \<Rightarrow> fault + (nat option \<times> 'a SQueue_v100)" where
  "apply_op_v100 QUEUE_SIZE (Push e) q =
     (case push_v100 QUEUE_SIZE e q of
        Inl f \<Rightarrow> Inl f
      | Inr (rc, q') \<Rightarrow> Inr (Some (overflow_code rc), q'))"
| "apply_op_v100 QUEUE_SIZE Pop q = Inr (None, pop_v100 QUEUE_SIZE q)"
| "apply_op_v100 QUEUE_SIZE Clear q = Inr (None, clear_v100 q)"

text \<open>What the four queries return in a state: front, back, size and empty.\<close>

definition observe :: "32 word \<Rightarrow> 'a SQueue \<Rightarrow> fault + ('a option \<times> 'a option \<times> 32 word \<times> bool)" where
  "observe QUEUE_SIZE q =
     (case front q of
        Inl f \<Rightarrow> Inl f
      | Inr a \<Rightarrow>
          (case back_q QUEUE_SIZE q of
             Inl f \<Rightarrow> Inl f
           | Inr b \<Rightarrow> Inr (a, b, size_q q, empty_q q)))"

definition observe_v100 ::
  "32 word \<Rightarrow> 'a SQueue_v100 \<Rightarrow> fault + ('a option \<times> 'a option \<times> 32 word \<times> bool)" where
  "observe_v100 QUEUE_SIZE q =
     (case front_v100 QUEUE_SIZE q of
        Inl f \<Rightarrow> Inl f
      | Inr a \<Rightarrow>
          (case back_v100 q of
             Inl f \<Rightarrow> Inl f
           | Inr b \<Rightarrow> Inr (a, b, size_v100 q, empty_v100 q)))"

text \<open>
  A run of operations, recording after each one the code it returned and what the
  queries return in the state it left.
\<close>

fun trace ::
  "32 word \<Rightarrow> 'a operation list \<Rightarrow> 'a SQueue \<Rightarrow>
   fault + (nat option \<times> 'a option \<times> 'a option \<times> 32 word \<times> bool) list" where
  "trace QUEUE_SIZE [] q = Inr []"
| "trace QUEUE_SIZE (x # xs) q =
     (case apply_op QUEUE_SIZE x q of
        Inl f \<Rightarrow> Inl f
      | Inr (r, q') \<Rightarrow>
          (case observe QUEUE_SIZE q' of
             Inl f \<Rightarrow> Inl f
           | Inr ob \<Rightarrow>
               (case trace QUEUE_SIZE xs q' of
                  Inl f \<Rightarrow> Inl f
                | Inr obs \<Rightarrow> Inr ((r, ob) # obs))))"

fun trace_v100 ::
  "32 word \<Rightarrow> 'a operation list \<Rightarrow> 'a SQueue_v100 \<Rightarrow>
   fault + (nat option \<times> 'a option \<times> 'a option \<times> 32 word \<times> bool) list" where
  "trace_v100 QUEUE_SIZE [] q = Inr []"
| "trace_v100 QUEUE_SIZE (x # xs) q =
     (case apply_op_v100 QUEUE_SIZE x q of
        Inl f \<Rightarrow> Inl f
      | Inr (r, q') \<Rightarrow>
          (case observe_v100 QUEUE_SIZE q' of
             Inl f \<Rightarrow> Inl f
           | Inr ob \<Rightarrow>
               (case trace_v100 QUEUE_SIZE xs q' of
                  Inl f \<Rightarrow> Inl f
                | Inr obs \<Rightarrow> Inr ((r, ob) # obs))))"

text \<open>Pushing a list of elements one after the other, collecting the result codes.\<close>

fun push_all :: "32 word \<Rightarrow> 'a list \<Rightarrow> 'a SQueue \<Rightarrow> fault + (t_squeue_rc list \<times> 'a SQueue)" where
  "push_all QUEUE_SIZE [] q = Inr ([], q)"
| "push_all QUEUE_SIZE (x # xs) q =
     (case push QUEUE_SIZE x q of
        Inl f \<Rightarrow> Inl f
      | Inr (rc, q') \<Rightarrow>
          (case push_all QUEUE_SIZE xs q' of
             Inl f \<Rightarrow> Inl f
           | Inr (rcs, q'') \<Rightarrow> Inr (rc # rcs, q'')))"

text \<open>
  Draining: \<open>k\<close> times, look at the front and pop, as the example program's
  \<^verbatim>\<open>show_queue_content\<close> does; the result lists what each \<^verbatim>\<open>front()\<close> returned.
\<close>

fun drain :: "32 word \<Rightarrow> nat \<Rightarrow> 'a SQueue \<Rightarrow> fault + ('a option list \<times> 'a SQueue)" where
  "drain QUEUE_SIZE 0 q = Inr ([], q)"
| "drain QUEUE_SIZE (Suc k) q =
     (case front q of
        Inl f \<Rightarrow> Inl f
      | Inr x \<Rightarrow>
          (case drain QUEUE_SIZE k (pop QUEUE_SIZE q) of
             Inl f \<Rightarrow> Inl f
           | Inr (xs, q') \<Rightarrow> Inr (x # xs, q')))"

text \<open>
  The states a queue object can be in: the one the constructor leaves, over an array of
  \<^verbatim>\<open>QUEUE_SIZE\<close> slots, and every state a public mutator leads to from there.
\<close>

inductive reachable :: "32 word \<Rightarrow> 'a SQueue \<Rightarrow> bool" for QUEUE_SIZE :: "32 word" where
  ctor: "0 < QUEUE_SIZE \<Longrightarrow> length buf = unat QUEUE_SIZE \<Longrightarrow> reachable QUEUE_SIZE (SQueue_ctor buf)"
| push: "reachable QUEUE_SIZE q \<Longrightarrow> push QUEUE_SIZE e q = Inr (rc, q') \<Longrightarrow> reachable QUEUE_SIZE q'"
| pop: "reachable QUEUE_SIZE q \<Longrightarrow> reachable QUEUE_SIZE (pop QUEUE_SIZE q)"
| clear: "reachable QUEUE_SIZE q \<Longrightarrow> reachable QUEUE_SIZE (clear q)"

section \<open>The logical window and the invariants\<close>

text \<open>
  \<open>ring buf n s c\<close> lists the \<open>c\<close> slots of the array \<open>buf\<close> of \<open>n\<close> slots that start
  at index \<open>s\<close> and wrap around. The valid elements of a queue are the
  \<^verbatim>\<open>num_elements_stored\<close> slots from \<^verbatim>\<open>queue_tail\<close> on, oldest first; in version 1.0.0
  they start one slot later.
\<close>

definition ring :: "'a list \<Rightarrow> nat \<Rightarrow> nat \<Rightarrow> nat \<Rightarrow> 'a list" where
  "ring buf n s c = map (\<lambda>i. buf ! ((s + i) mod n)) [0..<c]"

definition valid_elements :: "32 word \<Rightarrow> 'a SQueue \<Rightarrow> 'a list" where
  "valid_elements QUEUE_SIZE q =
     ring (buffer q) (unat QUEUE_SIZE) (unat (queue_tail q)) (unat (num_elements_stored q))"

definition valid_elements_v100 :: "32 word \<Rightarrow> 'a SQueue_v100 \<Rightarrow> 'a list" where
  "valid_elements_v100 QUEUE_SIZE q =
     ring (buffer_v100 q) (unat QUEUE_SIZE) (Suc (unat (queue_tail_v100 q)))
       (unat (num_elements_stored_v100 q))"

definition in_bounds :: "32 word \<Rightarrow> 'a SQueue \<Rightarrow> bool" where
  "in_bounds QUEUE_SIZE q \<longleftrightarrow>
     length (buffer q) = unat QUEUE_SIZE \<and>
     queue_head q < QUEUE_SIZE \<and> queue_tail q < QUEUE_SIZE \<and>
     num_elements_stored q \<le> QUEUE_SIZE"

definition head_follows :: "32 word \<Rightarrow> 'a SQueue \<Rightarrow> bool" where
  "head_follows QUEUE_SIZE q \<longleftrightarrow>
     unat (queue_head q) =
       (unat (queue_tail q) + unat (num_elements_stored q)) mod unat QUEUE_SIZE"

definition sq_inv :: "32 word \<Rightarrow> 'a SQueue \<Rightarrow> bool" where
  "sq_inv QUEUE_SIZE q \<longleftrightarrow>
     in_bounds QUEUE_SIZE q \<and> head_follows QUEUE_SIZE q \<and>
     (queue_overflow q \<longrightarrow> full QUEUE_SIZE q)"

definition sq_inv_v100 :: "32 word \<Rightarrow> 'a SQueue_v100 \<Rightarrow> bool" where
  "sq_inv_v100 QUEUE_SIZE q \<longleftrightarrow>
     length (buffer_v100 q) = unat QUEUE_SIZE \<and>
     queue_head_v100 q < QUEUE_SIZE \<and> queue_tail_v100 q < QUEUE_SIZE \<and>
     num_elements_stored_v100 q \<le> QUEUE_SIZE \<and>
     unat (queue_head_v100 q) =
       (unat (queue_tail_v100 q) + unat (num_elements_stored_v100 q)) mod unat QUEUE_SIZE \<and>
     (buffer_overflow q \<longrightarrow> full_v100 QUEUE_SIZE q)"

section \<open>Arithmetic of the ring indices\<close>

lemma length_ring: "length (ring buf n s c) = c"
  by (simp add: ring_def)

lemma nth_ring: "i < c \<Longrightarrow> ring buf n s c ! i = buf ! ((s + i) mod n)"
  by (simp add: ring_def)

lemma ring_start_mod: "ring buf n (s mod n) c = ring buf n s c"
  by (simp add: ring_def mod_add_left_eq)

lemma slots_differ_lt:
  fixes i j n s :: nat
  assumes "i < j" "j < n"
  shows "(s + i) mod n \<noteq> (s + j) mod n"
proof
  assume "(s + i) mod n = (s + j) mod n"
  then have "(s + j) mod n = (s + i) mod n" by simp
  moreover have "s + i \<le> s + j" using assms by simp
  ultimately have "n dvd (s + j) - (s + i)"
    by (simp add: mod_eq_dvd_iff_nat)
  then have "n dvd j - i" by simp
  moreover have "0 < j - i" "j - i < n" using assms by simp_all
  ultimately show False by (simp add: nat_dvd_not_less)
qed

lemma slots_differ:
  fixes i j n s :: nat
  assumes "i < n" "j < n" "i \<noteq> j"
  shows "(s + i) mod n \<noteq> (s + j) mod n"
proof (cases "i < j")
  case True
  then show ?thesis using assms by (simp add: slots_differ_lt)
next
  case False
  then have "j < i" using assms by simp
  then have "(s + j) mod n \<noteq> (s + i) mod n" using assms by (simp add: slots_differ_lt)
  then show ?thesis by simp
qed

lemma ring_snoc:
  assumes "c < n" "length buf = n"
  shows "ring (buf[(s + c) mod n := e]) n s (Suc c) = ring buf n s c @ [e]"
proof (rule nth_equalityI)
  show "length (ring (buf[(s + c) mod n := e]) n s (Suc c)) = length (ring buf n s c @ [e])"
    by (simp add: length_ring)
next
  fix i assume "i < length (ring (buf[(s + c) mod n := e]) n s (Suc c))"
  then have i: "i < Suc c" by (simp add: length_ring)
  show "ring (buf[(s + c) mod n := e]) n s (Suc c) ! i = (ring buf n s c @ [e]) ! i"
  proof (cases "i = c")
    case True
    then show ?thesis using assms by (simp add: nth_ring length_ring nth_append)
  next
    case False
    with i have lt: "i < c" by simp
    then have "(s + c) mod n \<noteq> (s + i) mod n"
      using assms by (intro slots_differ) simp_all
    then show ?thesis using lt i by (simp add: nth_ring length_ring nth_append)
  qed
qed

lemma ring_tl: "ring buf n (Suc s) c = tl (ring buf n s (Suc c))"
proof (rule nth_equalityI)
  show "length (ring buf n (Suc s) c) = length (tl (ring buf n s (Suc c)))"
    by (simp add: length_ring)
next
  fix i assume "i < length (ring buf n (Suc s) c)"
  then have "i < c" by (simp add: length_ring)
  then show "ring buf n (Suc s) c ! i = tl (ring buf n s (Suc c)) ! i"
    by (simp add: nth_ring nth_tl length_ring)
qed

lemma ring_evict:
  assumes "0 < n" "length buf = n"
  shows "ring (buf[s mod n := e]) n (Suc s) n = tl (ring buf n s n) @ [e]"
proof -
  obtain m where n: "n = Suc m" using assms(1) by (cases n) simp_all
  have "Suc s + m = s + n" by (simp add: n)
  then have "(Suc s + m) mod n = s mod n" by (simp only: mod_add_self2)
  moreover have "ring (buf[(Suc s + m) mod n := e]) n (Suc s) (Suc m) = ring buf n (Suc s) m @ [e]"
    using assms n by (intro ring_snoc) simp_all
  ultimately show ?thesis by (simp add: n ring_tl)
qed

lemma ring_hd: "0 < c \<Longrightarrow> hd (ring buf n s c) = buf ! (s mod n)"
  by (simp add: hd_conv_nth length_ring nth_ring flip: length_greater_0_conv)

lemma ring_last: "0 < c \<Longrightarrow> last (ring buf n s c) = buf ! ((s + (c - 1)) mod n)"
  by (simp add: last_conv_nth length_ring nth_ring flip: length_greater_0_conv)

lemma ring_set: "set (ring buf n s c) = {buf ! ((s + i) mod n) | i. i < c}"
  by (auto simp: ring_def)

lemma pred_mod:
  fixes h n m :: nat
  assumes "0 < n" "h = Suc m mod n"
  shows "(if h = 0 then n - 1 else h - 1) = m mod n"
  using assms by (auto simp: mod_Suc split: if_splits)


section \<open>Every reachable state satisfies the invariants\<close>

lemma unat_succ_lt:
  fixes i k :: "'a::len word"
  assumes "i < k" shows "unat (i + 1) = Suc (unat i)"
proof -
  have "unat i < unat k" using assms by (simp add: word_less_nat_alt)
  moreover have "unat k < 2 ^ LENGTH('a)" by (rule unsigned_less)
  ultimately have "unat i + unat (1::'a word) < 2 ^ LENGTH('a)" by (simp del: unsigned_less)
  then have "unat (i + 1) = unat i + unat (1::'a word)" by (rule unat_add_lem [THEN iffD1])
  then show ?thesis by simp
qed

lemma unat_succ_mod:
  fixes i k :: "'a::len word"
  assumes "i < k" shows "unat ((i + 1) mod k) = Suc (unat i) mod unat k"
  using assms by (simp add: unat_mod unat_succ_lt)

lemma succ_mod_less:
  fixes i k :: "'a::len word"
  assumes "0 < k" shows "(i + 1) mod k < k"
  using assms by (simp add: word_less_nat_alt unat_mod)

lemma push_result:
  assumes "in_bounds N q"
  shows "push N e q =
    Inr (if full N q then OVERFLOW else OK,
         (if full N q
          then q\<lparr>queue_overflow := True, queue_tail := (queue_tail q + 1) mod N\<rparr>
          else q\<lparr>queue_overflow := False, num_elements_stored := num_elements_stored q + 1\<rparr>)
         \<lparr>buffer := (buffer q)[unat (queue_head q) := e],
          queue_head := (queue_head q + 1) mod N\<rparr>)"
  using assms
  by (simp add: push_def Let_def array_write_def in_bounds_def word_less_nat_alt)

lemma in_bounds_pos: "in_bounds N q \<Longrightarrow> 0 < N"
  by (auto simp: in_bounds_def word_less_nat_alt)

lemma push_in_bounds:
  assumes "in_bounds N q" "push N e q = Inr (rc, q')"
  shows "in_bounds N q'"
proof -
  have pos: "0 < N" using assms(1) by (rule in_bounds_pos)
  show ?thesis
  proof (cases "full N q")
    case True
    then show ?thesis
      using assms pos by (auto simp: push_result in_bounds_def succ_mod_less)
  next
    case False
    then have lt: "num_elements_stored q < N" by (simp add: full_def)
    then have "unat (num_elements_stored q + 1) = Suc (unat (num_elements_stored q))"
      by (rule unat_succ_lt)
    with lt have "num_elements_stored q + 1 \<le> N"
      by (simp add: word_le_nat_alt word_less_nat_alt)
    then show ?thesis
      using assms pos False by (auto simp: push_result in_bounds_def succ_mod_less)
  qed
qed

lemma pop_in_bounds:
  assumes "in_bounds N q"
  shows "in_bounds N (pop N q)"
proof (cases "empty_q q")
  case True
  then show ?thesis using assms by (simp add: pop_def)
next
  case False
  have pos: "0 < N" using assms(1) by (rule in_bounds_pos)
  from False have "unat (num_elements_stored q - 1) = unat (num_elements_stored q) - 1"
    by (simp add: empty_q_def unat_minus_one)
  then have "num_elements_stored q - 1 \<le> N"
    using assms by (auto simp: word_le_nat_alt in_bounds_def)
  then show ?thesis
    using assms pos False by (simp add: pop_def in_bounds_def succ_mod_less)
qed

lemma ctor_in_bounds: "0 < N \<Longrightarrow> length buf = unat N \<Longrightarrow> in_bounds N (SQueue_ctor buf)"
  by (simp add: in_bounds_def SQueue_ctor_def)

lemma clear_in_bounds: "in_bounds N q \<Longrightarrow> in_bounds N (clear q)"
  by (auto simp: in_bounds_def clear_def word_less_nat_alt)

lemma length_valid_elements: "length (valid_elements N q) = unat (num_elements_stored q)"
  by (simp add: valid_elements_def length_ring)

lemma empty_q_valid: "empty_q q \<longleftrightarrow> valid_elements N q = []"
proof -
  have "valid_elements N q = [] \<longleftrightarrow> unat (num_elements_stored q) = 0"
    by (simp add: length_valid_elements flip: length_0_conv)
  then show ?thesis by (simp add: empty_q_def unat_eq_0)
qed

lemma full_valid:
  assumes "in_bounds N q"
  shows "full N q \<longleftrightarrow> length (valid_elements N q) = unat N"
  using assms by (auto simp: full_def in_bounds_def length_valid_elements word_le_nat_alt)

lemma full_unat:
  assumes "in_bounds N q" "full N q"
  shows "unat (num_elements_stored q) = unat N"
  using assms by (auto simp: full_def in_bounds_def word_le_nat_alt)

lemma push_effect:
  assumes inv: "sq_inv N q" and p: "push N e q = Inr (rc, q')"
  shows "sq_inv N q' \<and>
         valid_elements N q' =
           (if full N q then tl (valid_elements N q) else valid_elements N q) @ [e] \<and>
         rc = (if full N q then OVERFLOW else OK) \<and>
         queue_overflow q' = full N q"
proof -
  let ?n = "unat N" and ?h = "unat (queue_head q)" and ?t = "unat (queue_tail q)"
    and ?c = "unat (num_elements_stored q)"
  from inv have b: "in_bounds N q" and hf: "?h = (?t + ?c) mod ?n"
    by (simp_all add: sq_inv_def head_follows_def)
  from b have pos: "0 < N" by (rule in_bounds_pos)
  then have npos: "0 < ?n" by (simp add: word_less_nat_alt)
  from b have len: "length (buffer q) = ?n" and hlt: "queue_head q < N"
    and tlt: "queue_tail q < N" and tn: "?t < ?n"
    by (simp_all add: in_bounds_def word_less_nat_alt)
  have b': "in_bounds N q'" using b p by (rule push_in_bounds)
  have h': "unat ((queue_head q + 1) mod N) = Suc ?h mod ?n"
    using hlt by (rule unat_succ_mod)
  from p b have rc: "rc = (if full N q then OVERFLOW else OK)"
    and q': "q' =
        (if full N q
         then q\<lparr>queue_overflow := True, queue_tail := (queue_tail q + 1) mod N\<rparr>
         else q\<lparr>queue_overflow := False, num_elements_stored := num_elements_stored q + 1\<rparr>)
        \<lparr>buffer := (buffer q)[unat (queue_head q) := e],
         queue_head := (queue_head q + 1) mod N\<rparr>"
    by (auto simp: push_result)
  show ?thesis
  proof (cases "full N q")
    case True
    with b have c: "?c = ?n" by (rule full_unat)
    with hf tn have ht: "?h = ?t" by simp
    have t': "unat ((queue_tail q + 1) mod N) = Suc ?t mod ?n"
      using tlt by (rule unat_succ_mod)
    have "ring ((buffer q)[?t mod ?n := e]) ?n (Suc ?t) ?n = tl (ring (buffer q) ?n ?t ?n) @ [e]"
      using npos len by (rule ring_evict)
    then have "ring ((buffer q)[?h := e]) ?n (Suc ?t mod ?n) ?n = tl (ring (buffer q) ?n ?t ?n) @ [e]"
      using tn ht by (simp add: ring_start_mod)
    then have ve: "valid_elements N q' = tl (valid_elements N q) @ [e]"
      using True c by (simp add: q' valid_elements_def t')
    have "head_follows N q'"
      using True c ht by (simp add: q' head_follows_def t' h')
    moreover have "full N q'"
      using True by (simp add: q' full_def)
    ultimately show ?thesis
      using True b' ve by (simp add: sq_inv_def rc) (simp add: q')
  next
    case False
    then have lt: "num_elements_stored q < N" by (simp add: full_def)
    then have c': "unat (num_elements_stored q + 1) = Suc ?c" by (rule unat_succ_lt)
    from lt have cn: "?c < ?n" by (simp add: word_less_nat_alt)
    have "ring ((buffer q)[(?t + ?c) mod ?n := e]) ?n ?t (Suc ?c) = ring (buffer q) ?n ?t ?c @ [e]"
      using cn len by (rule ring_snoc)
    then have ve: "valid_elements N q' = valid_elements N q @ [e]"
      using False hf by (simp add: q' valid_elements_def c')
    have "Suc ?h mod ?n = (?t + Suc ?c) mod ?n"
      by (simp add: hf mod_Suc_eq)
    then have "head_follows N q'"
      using False by (simp add: q' head_follows_def c' h')
    then show ?thesis
      using False b' ve by (simp add: sq_inv_def rc) (simp add: q')
  qed
qed

lemma push_succeeds: "in_bounds N q \<Longrightarrow> \<exists>rc q'. push N e q = Inr (rc, q')"
  by (simp add: push_result)

lemma not_full_empty:
  assumes "in_bounds N q" "empty_q q" shows "\<not> full N q"
proof -
  have "0 < N" using assms(1) by (rule in_bounds_pos)
  then show ?thesis using assms(2) by (simp add: full_def empty_q_def word_less_nat_alt word_le_nat_alt)
qed

lemma pop_effect:
  assumes inv: "sq_inv N q"
  shows "sq_inv N (pop N q) \<and> valid_elements N (pop N q) = tl (valid_elements N q) \<and>
         \<not> queue_overflow (pop N q)"
proof (cases "empty_q q")
  case True
  from inv have b: "in_bounds N q" by (simp add: sq_inv_def)
  then have "\<not> full N q" using True by (rule not_full_empty)
  then have "\<not> queue_overflow q" using inv by (auto simp: sq_inv_def)
  moreover have "valid_elements N q = []" using True empty_q_valid [of q N] by simp
  ultimately show ?thesis using True inv by (simp add: pop_def)
next
  case False
  let ?n = "unat N" and ?h = "unat (queue_head q)" and ?t = "unat (queue_tail q)"
    and ?c = "unat (num_elements_stored q)"
  from inv have b: "in_bounds N q" and hf: "?h = (?t + ?c) mod ?n"
    by (simp_all add: sq_inv_def head_follows_def)
  have b': "in_bounds N (pop N q)" using b by (rule pop_in_bounds)
  from b have tlt: "queue_tail q < N" by (simp add: in_bounds_def)
  have t': "unat ((queue_tail q + 1) mod N) = Suc ?t mod ?n"
    using tlt by (rule unat_succ_mod)
  from False have c': "unat (num_elements_stored q - 1) = ?c - 1"
    by (simp add: empty_q_def unat_minus_one)
  from False have cpos: "0 < ?c" by (simp add: empty_q_def unat_gt_0)
  then have sc: "Suc (?c - 1) = ?c" by simp
  have "ring (buffer q) ?n (Suc ?t) (?c - 1) = tl (ring (buffer q) ?n ?t (Suc (?c - 1)))"
    by (rule ring_tl)
  then have ve: "valid_elements N (pop N q) = tl (valid_elements N q)"
    using False by (simp add: pop_def valid_elements_def t' c' ring_start_mod sc del: One_nat_def)
  have "(Suc ?t mod ?n + (?c - 1)) mod ?n = (Suc ?t + (?c - 1)) mod ?n"
    by (rule mod_add_left_eq)
  also have "Suc ?t + (?c - 1) = ?t + ?c" using cpos by simp
  finally have "head_follows N (pop N q)"
    using False hf by (simp add: pop_def head_follows_def t' c' del: One_nat_def)
  then show ?thesis
    using False b' ve by (simp add: sq_inv_def pop_def)
qed

lemma ctor_effect:
  assumes "0 < N" "length buf = unat N"
  shows "sq_inv N (SQueue_ctor buf) \<and> valid_elements N (SQueue_ctor buf) = []"
proof -
  have "in_bounds N (SQueue_ctor buf)" using assms by (rule ctor_in_bounds)
  then show ?thesis
    by (simp add: sq_inv_def head_follows_def valid_elements_def ring_def SQueue_ctor_def)
qed

lemma clear_effect:
  assumes "sq_inv N q"
  shows "sq_inv N (clear q) \<and> valid_elements N (clear q) = []"
proof -
  from assms have b: "in_bounds N q" by (simp add: sq_inv_def)
  then have "in_bounds N (clear q)" by (rule clear_in_bounds)
  then show ?thesis
    by (simp add: sq_inv_def head_follows_def valid_elements_def ring_def clear_def)
qed

lemma reachable_sq_inv: "reachable N q \<Longrightarrow> sq_inv N q"
proof (induction rule: reachable.induct)
  case (ctor buf)
  then show ?case by (simp add: ctor_effect)
next
  case (push q e rc q')
  from push_effect [OF push.IH push.hyps(2)] show ?case by simp
next
  case (pop q)
  then show ?case by (simp add: pop_effect)
next
  case (clear q)
  then show ?case by (simp add: clear_effect)
qed

lemma reachable_in_bounds: "reachable N q \<Longrightarrow> in_bounds N q"
  by (drule reachable_sq_inv) (simp add: sq_inv_def)

text \<open>The flag plays no part in how push and pop move the indices.\<close>

lemma push_ignores_flag: "push N e (q\<lparr>queue_overflow := False\<rparr>) = push N e q"
  by (simp add: push_def full_def Let_def array_write_def)

lemma pop_ignores_flag:
  "\<not> empty_q q \<Longrightarrow> pop N (q\<lparr>queue_overflow := False\<rparr>) = pop N q"
  by (simp add: pop_def empty_q_def)

lemma sq_inv_without_flag:
  assumes "in_bounds N q" "head_follows N q"
  shows "sq_inv N (q\<lparr>queue_overflow := False\<rparr>)"
  using assms by (simp add: sq_inv_def in_bounds_def head_follows_def)

lemma head_follows_push:
  assumes b: "in_bounds N q" and h: "head_follows N q" and p: "push N e q = Inr (rc, q')"
  shows "head_follows N q'"
proof -
  from b h have i: "sq_inv N (q\<lparr>queue_overflow := False\<rparr>)"
    by (rule sq_inv_without_flag)
  from p have p': "push N e (q\<lparr>queue_overflow := False\<rparr>) = Inr (rc, q')"
    by (simp only: push_ignores_flag)
  from push_effect [OF i p'] show ?thesis by (simp add: sq_inv_def)
qed

lemma head_follows_pop:
  assumes b: "in_bounds N q" and h: "head_follows N q"
  shows "head_follows N (pop N q)"
proof (cases "empty_q q")
  case True
  then show ?thesis using h by (simp add: pop_def)
next
  case False
  from b h have "sq_inv N (q\<lparr>queue_overflow := False\<rparr>)" by (rule sq_inv_without_flag)
  then have "sq_inv N (pop N (q\<lparr>queue_overflow := False\<rparr>))" by (simp add: pop_effect)
  then show ?thesis using False by (simp add: pop_ignores_flag sq_inv_def)
qed

section \<open>What the queries return\<close>

lemma unat_ucast_32_64: "unat (ucast (w :: 32 word) :: 64 word) = unat w"
proof -
  have "unat w < 2 ^ 32" using unsigned_less [of w, where 'a = nat] by simp
  then have "unat w < 2 ^ 64" by simp
  then show ?thesis by (simp add: unsigned_ucast_eq take_bit_nat_eq_self)
qed

lemma unat_index_64:
  fixes t N :: "32 word" and i :: "64 word"
  assumes "unat i \<le> unat N"
  shows "unat ((ucast t + i) mod ucast N :: 64 word) = (unat t + unat i) mod unat N"
proof -
  have "unat t < 2 ^ 32" "unat N < 2 ^ 32"
    using unsigned_less [of t, where 'a = nat] unsigned_less [of N, where 'a = nat] by simp_all
  with assms have "unat t + unat i < 2 ^ 33" by simp
  also have "(2::nat) ^ 33 < 2 ^ 64" by simp
  finally have "unat (ucast t :: 64 word) + unat i < 2 ^ LENGTH(64)"
    by (simp add: unat_ucast_32_64)
  then have "unat (ucast t + i) = unat (ucast t :: 64 word) + unat i"
    by (rule unat_add_lem [THEN iffD1])
  then show ?thesis by (simp add: unat_mod unat_ucast_32_64)
qed

lemma contains_loop_scan:
  assumes b: "in_bounds N q"
  shows "unat i \<le> unat (num_elements_stored q) \<Longrightarrow>
         contains_loop eq N x q i =
           Inr (\<exists>j. unat i \<le> j \<and> j < unat (num_elements_stored q) \<and>
                    eq x (buffer q ! ((unat (queue_tail q) + j) mod unat N)))"
proof (induction "unat (num_elements_stored q) - unat i" arbitrary: i)
  case 0
  then have "\<not> i < ucast (num_elements_stored q)"
    by (simp add: word_less_nat_alt unat_ucast_32_64)
  moreover from 0 have "\<not> (\<exists>j. unat i \<le> j \<and> j < unat (num_elements_stored q) \<and>
                    eq x (buffer q ! ((unat (queue_tail q) + j) mod unat N)))"
    by auto
  ultimately show ?case by (subst contains_loop.simps) simp
next
  case (Suc k)
  let ?c = "unat (num_elements_stored q)" and ?t = "unat (queue_tail q)" and ?n = "unat N"
  from Suc.hyps(2) have below: "unat i < ?c" by simp
  then have lt: "i < ucast (num_elements_stored q)"
    by (simp add: word_less_nat_alt unat_ucast_32_64)
  then have next_i: "unat (i + 1) = Suc (unat i)" by (rule unat_succ_lt)
  from b have cn: "?c \<le> ?n" and len: "length (buffer q) = ?n" and pos: "0 < ?n"
    by (auto simp: in_bounds_def word_le_nat_alt word_less_nat_alt)
  from below cn have "unat i \<le> ?n" by simp
  then have idx: "unat ((ucast (queue_tail q) + i) mod ucast N :: 64 word) = (?t + unat i) mod ?n"
    by (rule unat_index_64)
  have rd: "array_read (buffer q) ((?t + unat i) mod ?n) = Inr (buffer q ! ((?t + unat i) mod ?n))"
    using len pos by (simp add: array_read_def)
  show ?case
  proof (cases "eq x (buffer q ! ((?t + unat i) mod ?n))")
    case True
    then have "\<exists>j. unat i \<le> j \<and> j < ?c \<and> eq x (buffer q ! ((?t + j) mod ?n))"
      using below by (intro exI [of _ "unat i"]) simp
    then show ?thesis
      using lt True by (subst contains_loop.simps) (simp add: Let_def idx rd)
  next
    case False
    have "k = ?c - unat (i + 1)" using Suc.hyps(2) next_i by simp
    moreover have "unat (i + 1) \<le> ?c" using below next_i by simp
    ultimately have IH: "contains_loop eq N x q (i + 1) =
        Inr (\<exists>j. unat (i + 1) \<le> j \<and> j < ?c \<and> eq x (buffer q ! ((?t + j) mod ?n)))"
      by (rule Suc.hyps(1))
    have "(\<exists>j. Suc (unat i) \<le> j \<and> j < ?c \<and> eq x (buffer q ! ((?t + j) mod ?n))) \<longleftrightarrow>
          (\<exists>j. unat i \<le> j \<and> j < ?c \<and> eq x (buffer q ! ((?t + j) mod ?n)))"
      using False by (metis Suc_leD Suc_leI le_neq_implies_less)
    then show ?thesis
      using lt False by (subst contains_loop.simps) (simp add: Let_def idx rd IH next_i)
  qed
qed

lemma contains_scan:
  assumes "in_bounds N q"
  shows "contains eq N x q =
           Inr (\<exists>j < unat (num_elements_stored q).
                  eq x (buffer q ! ((unat (queue_tail q) + j) mod unat N)))"
  using contains_loop_scan [OF assms, of 0 eq x] by (simp add: contains_def)

lemma contains_valid:
  assumes "in_bounds N q"
  shows "contains eq N x q = Inr (\<exists>y \<in> set (valid_elements N q). eq x y)"
proof -
  have "(\<exists>y \<in> set (valid_elements N q). eq x y) \<longleftrightarrow>
        (\<exists>j < unat (num_elements_stored q).
                  eq x (buffer q ! ((unat (queue_tail q) + j) mod unat N)))"
    by (auto simp: valid_elements_def ring_set)
  then show ?thesis by (simp add: contains_scan [OF assms])
qed

lemma front_read:
  assumes "in_bounds N q"
  shows "front q = Inr (if empty_q q then None else Some (buffer q ! unat (queue_tail q)))"
  using assms by (simp add: front_def array_read_def in_bounds_def word_less_nat_alt)

lemma last_index_unat:
  fixes h N :: "32 word"
  assumes "0 < N"
  shows "unat (if h = 0 then N - 1 else h - 1) = (if unat h = 0 then unat N - 1 else unat h - 1)"
  using assms by (simp add: unat_minus_one unat_eq_0 word_neq_0_conv)

lemma back_read:
  assumes b: "in_bounds N q"
  shows "back_q N q =
     Inr (if empty_q q then None
          else Some (buffer q ! (if unat (queue_head q) = 0 then unat N - 1
                                 else unat (queue_head q) - 1)))"
proof -
  have pos: "0 < N" using b by (rule in_bounds_pos)
  from b pos have "(if unat (queue_head q) = 0 then unat N - 1 else unat (queue_head q) - 1)
      < length (buffer q)"
    by (auto simp: in_bounds_def word_less_nat_alt)
  then show ?thesis
    using pos by (simp add: back_q_def Let_def array_read_def last_index_unat del: One_nat_def)
qed

lemma pred_mod_int:
  fixes h n :: nat
  assumes "0 < n" "h < n"
  shows "nat ((int h - 1) mod int n) = (if h = 0 then n - 1 else h - 1)"
proof (cases "h = 0")
  case True
  have "(- 1) mod int n = int n - 1"
    using assms(1) by (simp add: zmod_minus1)
  then show ?thesis using True by simp
next
  case False
  then have "(int h - 1) mod int n = int h - 1"
    using assms by (intro mod_pos_pos_trivial) simp_all
  then show ?thesis using False by simp
qed

lemma front_valid:
  assumes "sq_inv N q"
  shows "front q = Inr (if valid_elements N q = [] then None else Some (hd (valid_elements N q)))"
proof -
  from assms have b: "in_bounds N q" by (simp add: sq_inv_def)
  then have "unat (queue_tail q) mod unat N = unat (queue_tail q)"
    by (simp add: in_bounds_def word_less_nat_alt)
  then have "\<not> empty_q q \<Longrightarrow> hd (valid_elements N q) = buffer q ! unat (queue_tail q)"
    by (simp add: valid_elements_def ring_hd empty_q_def unat_gt_0)
  then show ?thesis
    using empty_q_valid [of q N] by (simp add: front_read [OF b])
qed

lemma back_valid:
  assumes "sq_inv N q"
  shows "back_q N q = Inr (if valid_elements N q = [] then None else Some (last (valid_elements N q)))"
proof (cases "empty_q q")
  case True
  from assms have b: "in_bounds N q" by (simp add: sq_inv_def)
  show ?thesis using True empty_q_valid [of q N] by (simp add: back_read [OF b])
next
  case False
  let ?c = "unat (num_elements_stored q)" and ?t = "unat (queue_tail q)" and ?n = "unat N"
    and ?h = "unat (queue_head q)"
  from assms have b: "in_bounds N q" and hf: "?h = (?t + ?c) mod ?n"
    by (simp_all add: sq_inv_def head_follows_def)
  have "0 < N" using b by (rule in_bounds_pos)
  then have npos: "0 < ?n" by (simp add: word_less_nat_alt)
  from False have cpos: "0 < ?c" by (simp add: empty_q_def unat_gt_0)
  then have "?h = Suc (?t + (?c - 1)) mod ?n" using hf by simp
  with npos have "(if ?h = 0 then ?n - 1 else ?h - 1) = (?t + (?c - 1)) mod ?n"
    by (rule pred_mod)
  moreover have "last (valid_elements N q) = buffer q ! ((?t + (?c - 1)) mod ?n)"
    using cpos by (simp add: valid_elements_def ring_last del: One_nat_def)
  ultimately show ?thesis
    using False empty_q_valid [of q N] by (simp add: back_read [OF b] del: One_nat_def)
qed

section \<open>Filling and draining\<close>

lemma unat_size_valid: "unat (size_q q) = length (valid_elements N q)"
  by (simp add: size_q_def length_valid_elements)

lemma push_all_effect:
  "sq_inv N q \<Longrightarrow> length (valid_elements N q) + length xs \<le> unat N \<Longrightarrow>
   \<exists>q'. push_all N xs q = Inr (replicate (length xs) OK, q') \<and> sq_inv N q' \<and>
        valid_elements N q' = valid_elements N q @ xs"
proof (induction xs arbitrary: q)
  case Nil
  then show ?case by simp
next
  case (Cons x xs)
  from Cons.prems(1) have b: "in_bounds N q" by (simp add: sq_inv_def)
  from Cons.prems(2) have "length (valid_elements N q) \<noteq> unat N" by simp
  then have nf: "\<not> full N q" using full_valid [OF b] by simp
  obtain rc q1 where p: "push N x q = Inr (rc, q1)"
    using push_succeeds [OF b] by blast
  from push_effect [OF Cons.prems(1) p] nf
  have inv1: "sq_inv N q1" and ve1: "valid_elements N q1 = valid_elements N q @ [x]"
    and rc: "rc = OK"
    by simp_all
  from Cons.prems(2) ve1 have "length (valid_elements N q1) + length xs \<le> unat N" by simp
  with inv1 obtain q' where "push_all N xs q1 = Inr (replicate (length xs) OK, q')"
    and "sq_inv N q'" and "valid_elements N q' = valid_elements N q1 @ xs"
    using Cons.IH by blast
  then show ?case using p rc ve1 by simp
qed

lemma drain_effect:
  "sq_inv N q \<Longrightarrow> k \<le> length (valid_elements N q) \<Longrightarrow>
   \<exists>q'. drain N k q = Inr (map Some (take k (valid_elements N q)), q') \<and> sq_inv N q' \<and>
        valid_elements N q' = drop k (valid_elements N q)"
proof (induction k arbitrary: q)
  case 0
  then show ?case by simp
next
  case (Suc k)
  from Suc.prems(2) obtain y ys where ve: "valid_elements N q = y # ys"
    by (cases "valid_elements N q") simp_all
  have f: "front q = Inr (Some y)"
    by (simp add: front_valid [OF Suc.prems(1)] ve)
  from pop_effect [OF Suc.prems(1)] ve
  have inv1: "sq_inv N (pop N q)" and ve1: "valid_elements N (pop N q) = ys"
    by simp_all
  from Suc.prems(2) ve ve1 have "k \<le> length (valid_elements N (pop N q))" by simp
  with inv1 obtain q' where "drain N k (pop N q) =
      Inr (map Some (take k (valid_elements N (pop N q))), q')"
    and "sq_inv N q'" and "valid_elements N q' = drop k (valid_elements N (pop N q))"
    using Suc.IH by blast
  then show ?case using f ve ve1 by simp
qed

section \<open>Version 1.0.0 keeps the same window\<close>

lemma ring_start_Suc_mod: "ring buf n (Suc (s mod n)) c = ring buf n (Suc s) c"
proof -
  have "ring buf n (Suc (s mod n)) c = ring buf n (Suc (s mod n) mod n) c"
    by (simp only: ring_start_mod)
  also have "\<dots> = ring buf n (Suc s mod n) c"
    by (simp only: mod_Suc_eq)
  also have "\<dots> = ring buf n (Suc s) c"
    by (simp only: ring_start_mod)
  finally show ?thesis .
qed

lemma length_valid_elements_v100:
  "length (valid_elements_v100 N q) = unat (num_elements_stored_v100 q)"
  by (simp add: valid_elements_v100_def length_ring)

lemma empty_v100_valid: "empty_v100 q \<longleftrightarrow> valid_elements_v100 N q = []"
proof -
  have "valid_elements_v100 N q = [] \<longleftrightarrow> unat (num_elements_stored_v100 q) = 0"
    by (simp add: length_valid_elements_v100 flip: length_0_conv)
  then show ?thesis by (simp add: empty_v100_def unat_eq_0)
qed

lemma sq_inv_v100_pos: "sq_inv_v100 N q \<Longrightarrow> 0 < N"
  by (auto simp: sq_inv_v100_def word_less_nat_alt)

lemma full_v100_valid:
  assumes "sq_inv_v100 N q"
  shows "full_v100 N q \<longleftrightarrow> length (valid_elements_v100 N q) = unat N"
  using assms
  by (auto simp: full_v100_def size_v100_def sq_inv_v100_def length_valid_elements_v100
      word_le_nat_alt)

lemma push_v100_result:
  assumes "0 < N" "length (buffer_v100 q) = unat N"
  shows "push_v100 N e q =
    Inr (if full_v100 N q \<or> buffer_overflow q then BUFFER_OVERFLOW else BUFFER_OK,
         (if full_v100 N q
          then q\<lparr>buffer_overflow := True,
                 queue_tail_v100 := (queue_tail_v100 q + 1) mod N\<rparr>
          else q\<lparr>num_elements_stored_v100 := num_elements_stored_v100 q + 1\<rparr>)
         \<lparr>queue_head_v100 := (queue_head_v100 q + 1) mod N,
          buffer_v100 := (buffer_v100 q)[unat ((queue_head_v100 q + 1) mod N) := e]\<rparr>)"
proof -
  have "(queue_head_v100 q + 1) mod N < N" using assms(1) by (rule succ_mod_less)
  then have "unat ((queue_head_v100 q + 1) mod N) < length (buffer_v100 q)"
    using assms(2) by (simp add: word_less_nat_alt)
  then show ?thesis
    by (simp add: push_v100_def Let_def array_write_def)
qed

lemma push_v100_effect:
  assumes inv: "sq_inv_v100 N q"
  shows "\<exists>rc q'. push_v100 N e q = Inr (rc, q') \<and> sq_inv_v100 N q' \<and>
           valid_elements_v100 N q' =
             (if full_v100 N q then tl (valid_elements_v100 N q)
              else valid_elements_v100 N q) @ [e] \<and>
           rc = (if full_v100 N q then BUFFER_OVERFLOW else BUFFER_OK)"
proof -
  let ?n = "unat N" and ?h = "unat (queue_head_v100 q)" and ?t = "unat (queue_tail_v100 q)"
    and ?c = "unat (num_elements_stored_v100 q)"
  from inv have pos: "0 < N" by (rule sq_inv_v100_pos)
  then have npos: "0 < ?n" by (simp add: word_less_nat_alt)
  from inv have len: "length (buffer_v100 q) = ?n" and hlt: "queue_head_v100 q < N"
    and tlt: "queue_tail_v100 q < N" and tn: "?t < ?n" and cle: "?c \<le> ?n"
    and hf: "?h = (?t + ?c) mod ?n" and fl: "buffer_overflow q \<longrightarrow> full_v100 N q"
    by (simp_all add: sq_inv_v100_def word_less_nat_alt word_le_nat_alt)
  have h': "unat ((queue_head_v100 q + 1) mod N) = Suc ?h mod ?n"
    using hlt by (rule unat_succ_mod)
  have hb: "(queue_head_v100 q + 1) mod N < N" using pos by (rule succ_mod_less)
  define q' where "q' =
         (if full_v100 N q
          then q\<lparr>buffer_overflow := True,
                 queue_tail_v100 := (queue_tail_v100 q + 1) mod N\<rparr>
          else q\<lparr>num_elements_stored_v100 := num_elements_stored_v100 q + 1\<rparr>)
         \<lparr>queue_head_v100 := (queue_head_v100 q + 1) mod N,
          buffer_v100 := (buffer_v100 q)[unat ((queue_head_v100 q + 1) mod N) := e]\<rparr>"
  have p: "push_v100 N e q =
      Inr (if full_v100 N q then BUFFER_OVERFLOW else BUFFER_OK, q')"
    using fl by (auto simp: push_v100_result [OF pos len] q'_def)
  have "sq_inv_v100 N q' \<and>
        valid_elements_v100 N q' =
          (if full_v100 N q then tl (valid_elements_v100 N q)
           else valid_elements_v100 N q) @ [e]"
  proof (cases "full_v100 N q")
    case True
    then have c: "?c = ?n"
      using cle by (simp add: full_v100_def size_v100_def word_le_nat_alt)
    with hf tn have ht: "?h = ?t" by simp
    have t': "unat ((queue_tail_v100 q + 1) mod N) = Suc ?t mod ?n"
      using tlt by (rule unat_succ_mod)
    have "ring ((buffer_v100 q)[Suc ?t mod ?n := e]) ?n (Suc (Suc ?t)) ?n =
          tl (ring (buffer_v100 q) ?n (Suc ?t) ?n) @ [e]"
      using npos len by (rule ring_evict)
    moreover have "ring ((buffer_v100 q)[Suc ?t mod ?n := e]) ?n (Suc (Suc ?t mod ?n)) ?n =
        ring ((buffer_v100 q)[Suc ?t mod ?n := e]) ?n (Suc (Suc ?t)) ?n"
      by (rule ring_start_Suc_mod)
    ultimately have ve: "valid_elements_v100 N q' = tl (valid_elements_v100 N q) @ [e]"
      using True c ht by (simp add: q'_def valid_elements_v100_def t' h')
    have "Suc ?t mod ?n = (Suc ?t mod ?n + ?n) mod ?n" by simp
    then have "sq_inv_v100 N q'"
      using True c ht len tlt hb pos
      by (simp add: q'_def sq_inv_v100_def t' h' succ_mod_less full_v100_def size_v100_def
          word_le_nat_alt)
    with ve True show ?thesis by simp
  next
    case False
    then have lt: "num_elements_stored_v100 q < N"
      by (simp add: full_v100_def size_v100_def)
    then have c': "unat (num_elements_stored_v100 q + 1) = Suc ?c" by (rule unat_succ_lt)
    from lt have cn: "?c < ?n" by (simp add: word_less_nat_alt)
    have "ring ((buffer_v100 q)[(Suc ?t + ?c) mod ?n := e]) ?n (Suc ?t) (Suc ?c) =
          ring (buffer_v100 q) ?n (Suc ?t) ?c @ [e]"
      using cn len by (rule ring_snoc)
    moreover have hs: "Suc ?h mod ?n = (Suc ?t + ?c) mod ?n"
      by (simp add: hf mod_Suc_eq)
    ultimately have ve: "valid_elements_v100 N q' = valid_elements_v100 N q @ [e]"
      using False by (simp add: q'_def valid_elements_v100_def c' h')
    have "sq_inv_v100 N q'"
      using False len tlt hb cn fl hs
      by (simp add: q'_def sq_inv_v100_def c' h' word_le_nat_alt)
    with ve False show ?thesis by simp
  qed
  with p show ?thesis by blast
qed

lemma pop_v100_effect:
  assumes inv: "sq_inv_v100 N q"
  shows "sq_inv_v100 N (pop_v100 N q) \<and>
         valid_elements_v100 N (pop_v100 N q) = tl (valid_elements_v100 N q)"
proof (cases "empty_v100 q")
  case True
  then have "valid_elements_v100 N q = []" using empty_v100_valid [of q N] by simp
  then show ?thesis using True inv by (simp add: pop_v100_def)
next
  case False
  let ?n = "unat N" and ?h = "unat (queue_head_v100 q)" and ?t = "unat (queue_tail_v100 q)"
    and ?c = "unat (num_elements_stored_v100 q)"
  from inv have pos: "0 < N" by (rule sq_inv_v100_pos)
  from inv have len: "length (buffer_v100 q) = ?n" and hlt: "queue_head_v100 q < N"
    and tlt: "queue_tail_v100 q < N" and cle: "?c \<le> ?n"
    and hf: "?h = (?t + ?c) mod ?n"
    by (simp_all add: sq_inv_v100_def word_less_nat_alt word_le_nat_alt)
  have t': "unat ((queue_tail_v100 q + 1) mod N) = Suc ?t mod ?n"
    using tlt by (rule unat_succ_mod)
  from False have c': "unat (num_elements_stored_v100 q - 1) = ?c - 1"
    by (simp add: empty_v100_def unat_minus_one)
  from False have cpos: "0 < ?c" by (simp add: empty_v100_def unat_gt_0)
  then have sc: "Suc (?c - 1) = ?c" by simp
  have "ring (buffer_v100 q) ?n (Suc (Suc ?t)) (?c - 1) =
        tl (ring (buffer_v100 q) ?n (Suc ?t) (Suc (?c - 1)))"
    by (rule ring_tl)
  moreover have "ring (buffer_v100 q) ?n (Suc (Suc ?t mod ?n)) (?c - 1) =
        ring (buffer_v100 q) ?n (Suc (Suc ?t)) (?c - 1)"
    by (rule ring_start_Suc_mod)
  ultimately have ve: "valid_elements_v100 N (pop_v100 N q) = tl (valid_elements_v100 N q)"
    using False by (simp add: pop_v100_def valid_elements_v100_def t' c' sc del: One_nat_def)
  have "(Suc ?t mod ?n + (?c - 1)) mod ?n = (Suc ?t + (?c - 1)) mod ?n"
    by (rule mod_add_left_eq)
  also have "Suc ?t + (?c - 1) = ?t + ?c" using cpos by simp
  finally have hf': "?h = (Suc ?t mod ?n + (?c - 1)) mod ?n" using hf by simp
  have "?c - 1 \<le> ?n" using cle by simp
  then have "sq_inv_v100 N (pop_v100 N q)"
    using False len hlt pos hf'
    by (simp add: pop_v100_def sq_inv_v100_def t' c' succ_mod_less word_le_nat_alt
        del: One_nat_def)
  with ve show ?thesis by simp
qed

lemma ctor_v100_effect:
  assumes "0 < N" "length buf = unat N"
  shows "sq_inv_v100 N (SQueue_ctor_v100 buf) \<and>
         valid_elements_v100 N (SQueue_ctor_v100 buf) = []"
  using assms
  by (simp add: sq_inv_v100_def valid_elements_v100_def ring_def SQueue_ctor_v100_def)

lemma clear_v100_effect:
  assumes "sq_inv_v100 N q"
  shows "sq_inv_v100 N (clear_v100 q) \<and> valid_elements_v100 N (clear_v100 q) = []"
proof -
  from assms have "0 < N" by (rule sq_inv_v100_pos)
  then show ?thesis
    using assms
    by (simp add: sq_inv_v100_def valid_elements_v100_def ring_def clear_v100_def)
qed

lemma front_v100_valid:
  assumes inv: "sq_inv_v100 N q"
  shows "front_v100 N q =
     Inr (if valid_elements_v100 N q = [] then None
          else Some (hd (valid_elements_v100 N q)))"
proof (cases "empty_v100 q")
  case True
  then show ?thesis using empty_v100_valid [of q N] by (simp add: front_v100_def)
next
  case False
  let ?n = "unat N" and ?t = "unat (queue_tail_v100 q)"
  from inv have pos: "0 < N" by (rule sq_inv_v100_pos)
  from inv have len: "length (buffer_v100 q) = ?n" and tlt: "queue_tail_v100 q < N"
    by (simp_all add: sq_inv_v100_def)
  have t': "unat ((queue_tail_v100 q + 1) mod N) = Suc ?t mod ?n"
    using tlt by (rule unat_succ_mod)
  have "(queue_tail_v100 q + 1) mod N < N" using pos by (rule succ_mod_less)
  then have "Suc ?t mod ?n < length (buffer_v100 q)"
    using len by (simp add: word_less_nat_alt t')
  moreover have "hd (valid_elements_v100 N q) = buffer_v100 q ! (Suc ?t mod ?n)"
    using False by (simp add: valid_elements_v100_def ring_hd empty_v100_def unat_gt_0)
  ultimately show ?thesis
    using False empty_v100_valid [of q N] by (simp add: front_v100_def array_read_def t')
qed

lemma back_v100_valid:
  assumes inv: "sq_inv_v100 N q"
  shows "back_v100 q =
     Inr (if valid_elements_v100 N q = [] then None
          else Some (last (valid_elements_v100 N q)))"
proof (cases "empty_v100 q")
  case True
  then show ?thesis using empty_v100_valid [of q N] by (simp add: back_v100_def)
next
  case False
  let ?n = "unat N" and ?h = "unat (queue_head_v100 q)" and ?t = "unat (queue_tail_v100 q)"
    and ?c = "unat (num_elements_stored_v100 q)"
  from inv have len: "length (buffer_v100 q) = ?n" and hn: "?h < ?n"
    and hf: "?h = (?t + ?c) mod ?n"
    by (simp_all add: sq_inv_v100_def word_less_nat_alt)
  from False have cpos: "0 < ?c" by (simp add: empty_v100_def unat_gt_0)
  then have "Suc ?t + (?c - 1) = ?t + ?c" by simp
  then have "last (valid_elements_v100 N q) = buffer_v100 q ! ?h"
    using cpos by (simp add: valid_elements_v100_def ring_last hf del: One_nat_def add_Suc)
  then show ?thesis
    using False empty_v100_valid [of q N] len hn by (simp add: back_v100_def array_read_def)
qed

lemma observe_same:
  assumes inv: "sq_inv N q" and inv0: "sq_inv_v100 N q0"
    and same: "valid_elements N q = valid_elements_v100 N q0"
  shows "\<exists>ob. observe N q = Inr ob \<and> observe_v100 N q0 = Inr ob"
proof -
  have "unat (size_q q) = unat (size_v100 q0)"
    using same length_valid_elements [of N q] length_valid_elements_v100 [of N q0]
    by (simp add: size_q_def size_v100_def)
  then have sz: "size_q q = size_v100 q0" by (simp add: word_unat_eq_iff)
  have em: "empty_q q = empty_v100 q0"
    using same empty_q_valid [of q N] empty_v100_valid [of q0 N] by simp
  show ?thesis
    by (simp add: observe_def observe_v100_def front_valid [OF inv] back_valid [OF inv]
        front_v100_valid [OF inv0] back_v100_valid [OF inv0] same sz em)
qed

lemma apply_op_same:
  assumes inv: "sq_inv N q" and inv0: "sq_inv_v100 N q0"
    and same: "valid_elements N q = valid_elements_v100 N q0"
  shows "\<exists>r q' q0'. apply_op N x q = Inr (r, q') \<and> apply_op_v100 N x q0 = Inr (r, q0') \<and>
           sq_inv N q' \<and> sq_inv_v100 N q0' \<and>
           valid_elements N q' = valid_elements_v100 N q0'"
proof (cases x)
  case (Push e)
  from inv have b: "in_bounds N q" by (simp add: sq_inv_def)
  obtain rc q' where p: "push N e q = Inr (rc, q')"
    using push_succeeds [OF b] by blast
  from push_effect [OF inv p]
  have inv': "sq_inv N q'"
    and ve: "valid_elements N q' =
           (if full N q then tl (valid_elements N q) else valid_elements N q) @ [e]"
    and rc: "rc = (if full N q then OVERFLOW else OK)"
    by simp_all
  obtain rc0 q0' where p0: "push_v100 N e q0 = Inr (rc0, q0')"
    and inv0': "sq_inv_v100 N q0'"
    and ve0: "valid_elements_v100 N q0' =
             (if full_v100 N q0 then tl (valid_elements_v100 N q0)
              else valid_elements_v100 N q0) @ [e]"
    and rc0: "rc0 = (if full_v100 N q0 then BUFFER_OVERFLOW else BUFFER_OK)"
    using push_v100_effect [OF inv0, of e] by blast
  have fu: "full N q = full_v100 N q0"
    using full_valid [OF b] full_v100_valid [OF inv0] same by simp
  have "rc_code rc = overflow_code rc0" by (simp add: rc rc0 fu)
  moreover have "valid_elements N q' = valid_elements_v100 N q0'"
    by (simp add: ve ve0 fu same)
  ultimately show ?thesis using Push p p0 inv' inv0' by simp
next
  case Pop
  then show ?thesis
    using pop_effect [OF inv] pop_v100_effect [OF inv0] same by simp
next
  case Clear
  then show ?thesis
    using clear_effect [OF inv] clear_v100_effect [OF inv0] by simp
qed

lemma trace_same:
  "sq_inv N q \<Longrightarrow> sq_inv_v100 N q0 \<Longrightarrow>
   valid_elements N q = valid_elements_v100 N q0 \<Longrightarrow>
   \<exists>t. trace N xs q = Inr t \<and> trace_v100 N xs q0 = Inr t \<and> length t = length xs"
proof (induction xs arbitrary: q q0)
  case Nil
  then show ?case by simp
next
  case (Cons x xs)
  from apply_op_same [OF Cons.prems, of x]
  obtain r q' q0' where a: "apply_op N x q = Inr (r, q')"
    and a0: "apply_op_v100 N x q0 = Inr (r, q0')"
    and inv': "sq_inv N q'" and inv0': "sq_inv_v100 N q0'"
    and same': "valid_elements N q' = valid_elements_v100 N q0'"
    by blast
  from observe_same [OF inv' inv0' same']
  obtain ob where o: "observe N q' = Inr ob" and o0: "observe_v100 N q0' = Inr ob"
    by blast
  from Cons.IH [OF inv' inv0' same']
  obtain t where "trace N xs q' = Inr t" and "trace_v100 N xs q0' = Inr t"
    and "length t = length xs"
    by blast
  then show ?case using a a0 o o0 by simp
qed

section \<open>Example states\<close>

lemma example_ctor: "reachable 3 (SQueue_ctor [0, 0, 0 :: nat])"
  by (rule reachable.ctor) simp_all

lemma example_push:
  "push 3 5 (SQueue_ctor [0, 0, 0 :: nat]) =
     Inr (OK, \<lparr>buffer = [5, 0, 0], queue_head = 1, queue_tail = 0,
               num_elements_stored = 1, queue_overflow = False\<rparr>)"
  by (simp add: push_def SQueue_ctor_def full_def array_write_def Let_def)

lemma example_one:
  "reachable 3 \<lparr>buffer = [5, 0, 0 :: nat], queue_head = 1, queue_tail = 0,
                 num_elements_stored = 1, queue_overflow = False\<rparr>"
  by (rule reachable.push [OF example_ctor example_push])

lemma example_full:
  "reachable 1 \<lparr>buffer = [7 :: nat], queue_head = 0, queue_tail = 0,
                 num_elements_stored = 1, queue_overflow = False\<rparr>"
proof -
  have r: "reachable 1 (SQueue_ctor [0 :: nat])"
    by (rule reachable.ctor) simp_all
  have "push 1 7 (SQueue_ctor [0 :: nat]) =
     Inr (OK, \<lparr>buffer = [7], queue_head = 0, queue_tail = 0,
               num_elements_stored = 1, queue_overflow = False\<rparr>)"
    by (simp add: push_def SQueue_ctor_def full_def array_write_def Let_def)
  with r show ?thesis by (rule reachable.push)
qed

section \<open>The properties of the specification\<close>

text \<open>
  \<^bold>\<open>C1.\<close> Starting from any reachable empty queue, pushing \<open>k \<le> QUEUE_SIZE\<close> elements
  succeeds with \<^verbatim>\<open>OK\<close> each time and leaves \<^verbatim>\<open>size()\<close> equal to \<open>k\<close>; draining the queue
  then, \<open>k\<close> times \<^verbatim>\<open>front()\<close> followed by \<^verbatim>\<open>pop()\<close>, sees exactly the pushed elements in
  the order they were pushed, and the queue is empty afterwards.
\<close>

theorem fifo_round_trip:
  assumes "reachable QUEUE_SIZE q" and "empty_q q" and "length xs \<le> unat QUEUE_SIZE"
  shows "\<exists>q1 q2.
           push_all QUEUE_SIZE xs q = Inr (replicate (length xs) OK, q1) \<and>
           unat (size_q q1) = length xs \<and>
           drain QUEUE_SIZE (length xs) q1 = Inr (map Some xs, q2) \<and>
           empty_q q2"
proof -
  from assms(1) have inv: "sq_inv QUEUE_SIZE q" by (rule reachable_sq_inv)
  from assms(2) have ve: "valid_elements QUEUE_SIZE q = []"
    using empty_q_valid [of q QUEUE_SIZE] by simp
  with assms(3) have "length (valid_elements QUEUE_SIZE q) + length xs \<le> unat QUEUE_SIZE"
    by simp
  with inv obtain q1 where p: "push_all QUEUE_SIZE xs q = Inr (replicate (length xs) OK, q1)"
    and inv1: "sq_inv QUEUE_SIZE q1"
    and ve1: "valid_elements QUEUE_SIZE q1 = valid_elements QUEUE_SIZE q @ xs"
    using push_all_effect by blast
  from ve ve1 have ve1': "valid_elements QUEUE_SIZE q1 = xs" by simp
  then have "length xs \<le> length (valid_elements QUEUE_SIZE q1)" by simp
  with inv1 obtain q2 where d: "drain QUEUE_SIZE (length xs) q1 =
      Inr (map Some (take (length xs) (valid_elements QUEUE_SIZE q1)), q2)"
    and ve2: "valid_elements QUEUE_SIZE q2 = drop (length xs) (valid_elements QUEUE_SIZE q1)"
    using drain_effect by blast
  from ve2 ve1' have "empty_q q2" using empty_q_valid [of q2 QUEUE_SIZE] by simp
  moreover have "unat (size_q q1) = length xs"
    using unat_size_valid [of q1 QUEUE_SIZE] ve1' by simp
  ultimately show ?thesis using p d ve1' by simp
qed

theorem fifo_round_trip_witness:
  "reachable 3 (SQueue_ctor [0, 0, 0 :: nat]) \<and> empty_q (SQueue_ctor [0, 0, 0 :: nat]) \<and>
   length [4, 5, 6 :: nat] \<le> unat (3 :: 32 word) \<and>
   (\<exists>q1 q2.
      push_all 3 [4, 5, 6] (SQueue_ctor [0, 0, 0 :: nat]) =
        Inr (replicate (length [4, 5, 6 :: nat]) OK, q1) \<and>
      unat (size_q q1) = length [4, 5, 6 :: nat] \<and>
      drain 3 (length [4, 5, 6 :: nat]) q1 = Inr (map Some [4, 5, 6], q2) \<and>
      empty_q q2)"
proof -
  have e: "empty_q (SQueue_ctor [0, 0, 0 :: nat])"
    by (simp add: empty_q_def SQueue_ctor_def)
  have l: "length [4, 5, 6 :: nat] \<le> unat (3 :: 32 word)" by simp
  from fifo_round_trip [OF example_ctor e l] example_ctor e l show ?thesis
    by blast
qed

text \<open>
  \<^bold>\<open>C2.\<close> The specification says that after a push into a full queue the new
  \<^verbatim>\<open>front()\<close> is the second-oldest element stored before. For a queue of capacity 1 this
  is not so: the full queue has no second-oldest element, and after the evicting push
  \<^verbatim>\<open>front()\<close> yields the element just pushed, which is none of the elements stored before.
\<close>

theorem push_full_capacity_one_counterexample:
  "reachable 1 \<lparr>buffer = [7 :: nat], queue_head = 0, queue_tail = 0,
                 num_elements_stored = 1, queue_overflow = False\<rparr> \<and>
   full 1 \<lparr>buffer = [7 :: nat], queue_head = 0, queue_tail = 0,
            num_elements_stored = 1, queue_overflow = False\<rparr> \<and>
   valid_elements 1 \<lparr>buffer = [7 :: nat], queue_head = 0, queue_tail = 0,
                      num_elements_stored = 1, queue_overflow = False\<rparr> = [7] \<and>
   push 1 9 \<lparr>buffer = [7 :: nat], queue_head = 0, queue_tail = 0,
              num_elements_stored = 1, queue_overflow = False\<rparr> =
     Inr (OVERFLOW, \<lparr>buffer = [9], queue_head = 0, queue_tail = 0,
                     num_elements_stored = 1, queue_overflow = True\<rparr>) \<and>
   front \<lparr>buffer = [9 :: nat], queue_head = 0, queue_tail = 0,
          num_elements_stored = 1, queue_overflow = True\<rparr> = Inr (Some 9)"
  using example_full
  by (simp add: full_def valid_elements_def ring_def push_def array_write_def Let_def
      front_def empty_q_def array_read_def)

text \<open>
  \<^bold>\<open>C2, amended.\<close> In every reachable state and for every element, \<^verbatim>\<open>push\<close> returns
  \<^verbatim>\<open>OVERFLOW\<close> exactly when the queue was full at the call and \<^verbatim>\<open>OK\<close> otherwise, and the
  element is stored as the newest one. When the queue was full, \<^verbatim>\<open>size()\<close> stays
  \<^verbatim>\<open>QUEUE_SIZE\<close>, the oldest element is dropped, and the new \<^verbatim>\<open>front()\<close> is the
  second-oldest element stored before if the capacity is at least 2, and the element just
  pushed if the capacity is 1. When the queue was not full, the count grows by one and no
  element is dropped.
\<close>

theorem push_stores_and_reports:
  assumes "reachable QUEUE_SIZE q"
  shows "\<exists>q'. push QUEUE_SIZE e q = Inr (if full QUEUE_SIZE q then OVERFLOW else OK, q') \<and>
           back_q QUEUE_SIZE q' = Inr (Some e) \<and>
           (full QUEUE_SIZE q \<longrightarrow>
              size_q q' = QUEUE_SIZE \<and>
              valid_elements QUEUE_SIZE q' = tl (valid_elements QUEUE_SIZE q) @ [e] \<and>
              (1 < QUEUE_SIZE \<longrightarrow>
                 front q' = Inr (Some (valid_elements QUEUE_SIZE q ! 1)) \<and>
                 front q' =
                   Inr (Some (buffer q ! ((unat (queue_tail q) + 1) mod unat QUEUE_SIZE)))) \<and>
              (QUEUE_SIZE = 1 \<longrightarrow> front q' = Inr (Some e))) \<and>
           (\<not> full QUEUE_SIZE q \<longrightarrow>
              size_q q' = size_q q + 1 \<and> unat (size_q q') = unat (size_q q) + 1 \<and>
              valid_elements QUEUE_SIZE q' = valid_elements QUEUE_SIZE q @ [e])"
proof -
  let ?N = QUEUE_SIZE
  from assms have inv: "sq_inv ?N q" by (rule reachable_sq_inv)
  then have b: "in_bounds ?N q" by (simp add: sq_inv_def)
  obtain rc q' where p: "push ?N e q = Inr (rc, q')"
    using push_succeeds [OF b] by blast
  from push_effect [OF inv p]
  have inv': "sq_inv ?N q'"
    and ve: "valid_elements ?N q' =
           (if full ?N q then tl (valid_elements ?N q) else valid_elements ?N q) @ [e]"
    and rc: "rc = (if full ?N q then OVERFLOW else OK)"
    by simp_all
  have bk: "back_q ?N q' = Inr (Some e)"
    by (simp add: back_valid [OF inv'] ve)
  have fr: "front q' = Inr (Some (hd (valid_elements ?N q')))"
    by (simp add: front_valid [OF inv'] ve)
  have full_case: "size_q q' = ?N \<and>
      valid_elements ?N q' = tl (valid_elements ?N q) @ [e] \<and>
      (1 < ?N \<longrightarrow>
         front q' = Inr (Some (valid_elements ?N q ! 1)) \<and>
         front q' = Inr (Some (buffer q ! ((unat (queue_tail q) + 1) mod unat ?N)))) \<and>
      (?N = 1 \<longrightarrow> front q' = Inr (Some e))" if f: "full ?N q"
  proof -
    from b f have c: "unat (num_elements_stored q) = unat ?N" by (rule full_unat)
    then have ceq: "num_elements_stored q = ?N" by (simp add: word_unat_eq_iff)
    have len: "length (valid_elements ?N q) = unat ?N"
      by (simp add: length_valid_elements c)
    have sz: "size_q q' = ?N"
      using p f b ceq by (auto simp: push_result size_q_def)
    have one: "?N = 1 \<longrightarrow> front q' = Inr (Some e)"
    proof
      assume "?N = 1"
      with len have "length (valid_elements ?N q) = 1" by simp
      then have "tl (valid_elements ?N q) = []"
        by (cases "valid_elements ?N q") simp_all
      then show "front q' = Inr (Some e)" using f by (simp add: fr ve)
    qed
    have more: "1 < ?N \<longrightarrow>
         front q' = Inr (Some (valid_elements ?N q ! 1)) \<and>
         front q' = Inr (Some (buffer q ! ((unat (queue_tail q) + 1) mod unat ?N)))"
    proof
      assume "1 < ?N"
      then have gt: "1 < unat ?N" by (simp add: word_less_nat_alt)
      with len obtain y z zs where yz: "valid_elements ?N q = y # z # zs"
        by (cases "valid_elements ?N q"; cases "tl (valid_elements ?N q)") auto
      have "valid_elements ?N q ! 1 = buffer q ! ((unat (queue_tail q) + 1) mod unat ?N)"
        using gt nth_ring [of 1 "unat ?N" "buffer q" "unat ?N" "unat (queue_tail q)"]
        by (simp add: valid_elements_def c)
      moreover have "front q' = Inr (Some (valid_elements ?N q ! 1))"
        using f by (simp add: fr ve yz)
      ultimately show "front q' = Inr (Some (valid_elements ?N q ! 1)) \<and>
         front q' = Inr (Some (buffer q ! ((unat (queue_tail q) + 1) mod unat ?N)))"
        by simp
    qed
    from f ve have "valid_elements ?N q' = tl (valid_elements ?N q) @ [e]" by simp
    with sz one more show ?thesis by blast
  qed
  have room_case: "size_q q' = size_q q + 1 \<and> unat (size_q q') = unat (size_q q) + 1 \<and>
      valid_elements ?N q' = valid_elements ?N q @ [e]" if nf: "\<not> full ?N q"
  proof -
    have sz: "size_q q' = size_q q + 1"
      using p nf b by (auto simp: push_result size_q_def)
    have "unat (size_q q') = length (valid_elements ?N q')" by (rule unat_size_valid)
    also have "\<dots> = length (valid_elements ?N q) + 1" using nf by (simp add: ve)
    also have "length (valid_elements ?N q) = unat (size_q q)"
      by (rule unat_size_valid [symmetric])
    finally show ?thesis using sz nf ve by simp
  qed
  from p rc bk full_case room_case show ?thesis by blast
qed

theorem push_stores_and_reports_witness:
  "reachable 2 \<lparr>buffer = [7, 8 :: nat], queue_head = 0, queue_tail = 0,
                 num_elements_stored = 2, queue_overflow = False\<rparr> \<and>
   full 2 \<lparr>buffer = [7, 8 :: nat], queue_head = 0, queue_tail = 0,
            num_elements_stored = 2, queue_overflow = False\<rparr> \<and>
   (\<exists>q'. push 2 9 \<lparr>buffer = [7, 8 :: nat], queue_head = 0, queue_tail = 0,
                    num_elements_stored = 2, queue_overflow = False\<rparr> = Inr (OVERFLOW, q') \<and>
         back_q 2 q' = Inr (Some 9) \<and> size_q q' = 2 \<and> front q' = Inr (Some 8))"
proof -
  let ?q = "\<lparr>buffer = [7, 8 :: nat], queue_head = 0, queue_tail = 0,
             num_elements_stored = 2, queue_overflow = False\<rparr>"
  have r0: "reachable 2 (SQueue_ctor [0, 0 :: nat])"
    by (rule reachable.ctor) simp_all
  have "push 2 7 (SQueue_ctor [0, 0 :: nat]) =
     Inr (OK, \<lparr>buffer = [7, 0], queue_head = 1, queue_tail = 0,
               num_elements_stored = 1, queue_overflow = False\<rparr>)"
    by (simp add: push_def SQueue_ctor_def full_def array_write_def Let_def)
  with r0 have r1: "reachable 2 \<lparr>buffer = [7, 0 :: nat], queue_head = 1, queue_tail = 0,
               num_elements_stored = 1, queue_overflow = False\<rparr>"
    by (rule reachable.push)
  have "push 2 8 \<lparr>buffer = [7, 0 :: nat], queue_head = 1, queue_tail = 0,
               num_elements_stored = 1, queue_overflow = False\<rparr> = Inr (OK, ?q)"
    by (simp add: push_def full_def array_write_def Let_def word_le_nat_alt)
  with r1 have r2: "reachable 2 ?q"
    by (rule reachable.push)
  have f: "full 2 ?q" by (simp add: full_def)
  have v: "valid_elements 2 ?q ! 1 = 8" by (simp add: valid_elements_def ring_def)
  from push_stores_and_reports [OF r2, of 9] f v
  have "\<exists>q'. push 2 9 ?q = Inr (OVERFLOW, q') \<and>
         back_q 2 q' = Inr (Some 9) \<and> size_q q' = 2 \<and> front q' = Inr (Some 8)"
    by auto
  with r2 f show ?thesis by blast
qed

text \<open>
  \<^bold>\<open>C3.\<close> In every reachable state, \<^verbatim>\<open>front()\<close> and \<^verbatim>\<open>back()\<close> return the null pointer
  exactly when the queue is empty. On a non-empty queue \<^verbatim>\<open>front()\<close> points to
  \<^verbatim>\<open>buffer[queue_tail]\<close>, which holds the oldest valid element, and \<^verbatim>\<open>back()\<close> points to
  the slot at index \<open>(queue_head - 1) mod QUEUE_SIZE\<close> (computed in the integers), which
  holds the newest valid element; after any push, \<^verbatim>\<open>back()\<close> yields the element just
  pushed. Neither query changes the state: they return no state.
\<close>

theorem front_back_slots:
  assumes "reachable QUEUE_SIZE q"
  shows "(front q = Inr None \<longleftrightarrow> empty_q q) \<and>
         (back_q QUEUE_SIZE q = Inr None \<longleftrightarrow> empty_q q) \<and>
         (\<not> empty_q q \<longrightarrow>
            front q = Inr (Some (buffer q ! unat (queue_tail q))) \<and>
            front q = Inr (Some (hd (valid_elements QUEUE_SIZE q))) \<and>
            back_q QUEUE_SIZE q =
              Inr (Some (buffer q !
                     nat ((int (unat (queue_head q)) - 1) mod int (unat QUEUE_SIZE)))) \<and>
            back_q QUEUE_SIZE q = Inr (Some (last (valid_elements QUEUE_SIZE q)))) \<and>
         (\<forall>e rc q'. push QUEUE_SIZE e q = Inr (rc, q') \<longrightarrow>
            back_q QUEUE_SIZE q' = Inr (Some e))"
proof -
  from assms have inv: "sq_inv QUEUE_SIZE q" by (rule reachable_sq_inv)
  then have b: "in_bounds QUEUE_SIZE q" by (simp add: sq_inv_def)
  have pos: "0 < unat QUEUE_SIZE" and h: "unat (queue_head q) < unat QUEUE_SIZE"
    using b by (auto simp: in_bounds_def word_less_nat_alt)
  have idx: "nat ((int (unat (queue_head q)) - 1) mod int (unat QUEUE_SIZE)) =
      (if unat (queue_head q) = 0 then unat QUEUE_SIZE - 1 else unat (queue_head q) - 1)"
    using pos h by (rule pred_mod_int)
  have f1: "front q = Inr None \<longleftrightarrow> empty_q q"
    by (simp add: front_read [OF b])
  have b1: "back_q QUEUE_SIZE q = Inr None \<longleftrightarrow> empty_q q"
    by (simp add: back_read [OF b])
  have f2: "\<not> empty_q q \<longrightarrow> front q = Inr (Some (buffer q ! unat (queue_tail q)))"
    by (simp add: front_read [OF b])
  have f3: "\<not> empty_q q \<longrightarrow> front q = Inr (Some (hd (valid_elements QUEUE_SIZE q)))"
    using empty_q_valid [of q QUEUE_SIZE] by (simp add: front_valid [OF inv])
  have b2: "\<not> empty_q q \<longrightarrow> back_q QUEUE_SIZE q =
              Inr (Some (buffer q !
                     nat ((int (unat (queue_head q)) - 1) mod int (unat QUEUE_SIZE))))"
    by (simp only: idx) (simp add: back_read [OF b])
  have b3: "\<not> empty_q q \<longrightarrow> back_q QUEUE_SIZE q = Inr (Some (last (valid_elements QUEUE_SIZE q)))"
    using empty_q_valid [of q QUEUE_SIZE] by (simp add: back_valid [OF inv])
  have p: "\<forall>e rc q'. push QUEUE_SIZE e q = Inr (rc, q') \<longrightarrow>
            back_q QUEUE_SIZE q' = Inr (Some e)"
  proof (intro allI impI)
    fix e rc q' assume "push QUEUE_SIZE e q = Inr (rc, q')"
    with inv have "sq_inv QUEUE_SIZE q' \<and>
         valid_elements QUEUE_SIZE q' =
           (if full QUEUE_SIZE q then tl (valid_elements QUEUE_SIZE q)
            else valid_elements QUEUE_SIZE q) @ [e] \<and>
         rc = (if full QUEUE_SIZE q then OVERFLOW else OK) \<and>
         queue_overflow q' = full QUEUE_SIZE q"
      by (rule push_effect)
    then show "back_q QUEUE_SIZE q' = Inr (Some e)"
      by (simp add: back_valid)
  qed
  from f1 b1 f2 f3 b2 b3 p show ?thesis by blast
qed

theorem front_back_slots_witness:
  "reachable 3 \<lparr>buffer = [5, 0, 0 :: nat], queue_head = 1, queue_tail = 0,
                 num_elements_stored = 1, queue_overflow = False\<rparr> \<and>
   front \<lparr>buffer = [5, 0, 0 :: nat], queue_head = 1, queue_tail = 0,
          num_elements_stored = 1, queue_overflow = False\<rparr> = Inr (Some 5) \<and>
   back_q 3 \<lparr>buffer = [5, 0, 0 :: nat], queue_head = 1, queue_tail = 0,
             num_elements_stored = 1, queue_overflow = False\<rparr> = Inr (Some 5)"
  using front_back_slots [OF example_one] example_one
  by (simp add: empty_q_def)

text \<open>
  \<^bold>\<open>C4.\<close> On every empty queue state, reachable or not, \<^verbatim>\<open>pop()\<close> returns the state
  it was given: indices, count, flag and array are all unchanged, and \<^verbatim>\<open>size()\<close> is
  still 0. \<^verbatim>\<open>pop()\<close> touches no array slot and returns no code, so there is no error
  it could signal.
\<close>

theorem pop_empty_noop:
  assumes "empty_q q"
  shows "pop QUEUE_SIZE q = q \<and> size_q (pop QUEUE_SIZE q) = 0"
  using assms by (simp add: pop_def size_q_def empty_q_def)

theorem pop_empty_noop_witness:
  "empty_q (SQueue_ctor [0, 0, 0 :: nat]) \<and>
   pop 3 (SQueue_ctor [0, 0, 0 :: nat]) = SQueue_ctor [0, 0, 0] \<and>
   size_q (pop 3 (SQueue_ctor [0, 0, 0 :: nat])) = 0"
proof -
  have e: "empty_q (SQueue_ctor [0, 0, 0 :: nat])"
    by (simp add: empty_q_def SQueue_ctor_def)
  from pop_empty_noop [OF e, of 3] e show ?thesis by blast
qed

text \<open>
  \<^bold>\<open>C5.\<close> The overflow flag is false after construction, and in every reachable state
  each of push, pop and clear returns a state whose flag is true exactly when the operation
  was a push that found the queue full. So an evicting push sets the flag; a push that
  finds room, a clear, and every pop clear it, whether or not the pop has anything to do
  with the eviction (a pop of an empty queue finds the flag already false).
\<close>

theorem overflow_flag_transient:
  "queue_overflow (SQueue_ctor buf) = False \<and>
   (reachable QUEUE_SIZE q \<longrightarrow>
      (\<exists>r q'. apply_op QUEUE_SIZE x q = Inr (r, q')) \<and>
      (\<forall>r q'. apply_op QUEUE_SIZE x q = Inr (r, q') \<longrightarrow>
         queue_overflow q' = ((\<exists>e. x = Push e) \<and> full QUEUE_SIZE q)))"
proof (intro conjI impI allI)
  show "queue_overflow (SQueue_ctor buf) = False" by (simp add: SQueue_ctor_def)
next
  assume "reachable QUEUE_SIZE q"
  then have "in_bounds QUEUE_SIZE q" by (rule reachable_in_bounds)
  then show "\<exists>r q'. apply_op QUEUE_SIZE x q = Inr (r, q')"
    by (cases x) (simp_all add: push_result)
next
  fix r q'
  assume re: "reachable QUEUE_SIZE q" and a: "apply_op QUEUE_SIZE x q = Inr (r, q')"
  from re have inv: "sq_inv QUEUE_SIZE q" by (rule reachable_sq_inv)
  show "queue_overflow q' = ((\<exists>e. x = Push e) \<and> full QUEUE_SIZE q)"
  proof (cases x)
    case (Push e)
    with a obtain rc where "push QUEUE_SIZE e q = Inr (rc, q')"
      by (auto split: sum.splits)
    with inv have "sq_inv QUEUE_SIZE q' \<and>
         valid_elements QUEUE_SIZE q' =
           (if full QUEUE_SIZE q then tl (valid_elements QUEUE_SIZE q)
            else valid_elements QUEUE_SIZE q) @ [e] \<and>
         rc = (if full QUEUE_SIZE q then OVERFLOW else OK) \<and>
         queue_overflow q' = full QUEUE_SIZE q"
      by (rule push_effect)
    then show ?thesis using Push by simp
  next
    case Pop
    with a have "q' = pop QUEUE_SIZE q" by simp
    then show ?thesis using pop_effect [OF inv] Pop by simp
  next
    case Clear
    with a have "q' = clear q" by simp
    then show ?thesis using Clear by (simp add: clear_def)
  qed
qed

theorem overflow_flag_transient_witness:
  "reachable 1 \<lparr>buffer = [7 :: nat], queue_head = 0, queue_tail = 0,
                 num_elements_stored = 1, queue_overflow = False\<rparr> \<and>
   apply_op 1 (Push 9) \<lparr>buffer = [7 :: nat], queue_head = 0, queue_tail = 0,
                 num_elements_stored = 1, queue_overflow = False\<rparr> =
     Inr (Some 1, \<lparr>buffer = [9], queue_head = 0, queue_tail = 0,
                 num_elements_stored = 1, queue_overflow = True\<rparr>) \<and>
   full 1 \<lparr>buffer = [7 :: nat], queue_head = 0, queue_tail = 0,
                 num_elements_stored = 1, queue_overflow = False\<rparr>"
proof -
  have a: "apply_op 1 (Push 9) \<lparr>buffer = [7 :: nat], queue_head = 0, queue_tail = 0,
                 num_elements_stored = 1, queue_overflow = False\<rparr> =
     Inr (Some 1, \<lparr>buffer = [9], queue_head = 0, queue_tail = 0,
                 num_elements_stored = 1, queue_overflow = True\<rparr>)"
    by (simp add: push_def full_def array_write_def Let_def)
  from overflow_flag_transient [of "[7 :: nat]" 1
      "\<lparr>buffer = [7 :: nat], queue_head = 0, queue_tail = 0,
        num_elements_stored = 1, queue_overflow = False\<rparr>" "Push 9"] example_full a
  show ?thesis by auto
qed

text \<open>
  \<^bold>\<open>C6.\<close> In every reachable state, \<^verbatim>\<open>contains(x)\<close> returns true exactly when \<open>x\<close>
  compares equal (by the element type's \<^verbatim>\<open>operator==\<close>, here \<open>eq\<close>) to one of the
  \<^verbatim>\<open>num_elements_stored\<close> valid elements, those at the indices \<open>queue_tail + j\<close> modulo
  \<^verbatim>\<open>QUEUE_SIZE\<close> for \<open>j\<close> below the count; on an empty queue it returns false. Where
  \<^verbatim>\<open>operator==\<close> is equality of values, this is membership among the valid elements. The
  scan itself is the recursion \<open>contains_loop\<close>, which starts at \<open>j = 0\<close> and stops at the
  first match.
\<close>

theorem contains_iff_valid:
  assumes "reachable QUEUE_SIZE q"
  shows "contains eq QUEUE_SIZE x q =
           Inr (\<exists>j < unat (num_elements_stored q).
                  eq x (buffer q ! ((unat (queue_tail q) + j) mod unat QUEUE_SIZE))) \<and>
         contains eq QUEUE_SIZE x q = Inr (\<exists>y \<in> set (valid_elements QUEUE_SIZE q). eq x y) \<and>
         contains (=) QUEUE_SIZE x q = Inr (x \<in> set (valid_elements QUEUE_SIZE q)) \<and>
         (empty_q q \<longrightarrow> contains eq QUEUE_SIZE x q = Inr False)"
proof -
  from assms have b: "in_bounds QUEUE_SIZE q" by (rule reachable_in_bounds)
  have e: "empty_q q \<longrightarrow> contains eq QUEUE_SIZE x q = Inr False"
    by (simp add: contains_scan [OF b] empty_q_def)
  have m: "contains (=) QUEUE_SIZE x q = Inr (x \<in> set (valid_elements QUEUE_SIZE q))"
    by (simp add: contains_valid [OF b])
  from e m contains_valid [OF b, of eq x] contains_scan [OF b, of eq x]
  show ?thesis by simp
qed

theorem contains_iff_valid_witness:
  "reachable 3 \<lparr>buffer = [5, 0, 0 :: nat], queue_head = 1, queue_tail = 0,
                 num_elements_stored = 1, queue_overflow = False\<rparr> \<and>
   contains (=) 3 5 \<lparr>buffer = [5, 0, 0 :: nat], queue_head = 1, queue_tail = 0,
                 num_elements_stored = 1, queue_overflow = False\<rparr> = Inr True \<and>
   contains (=) 3 0 \<lparr>buffer = [5, 0, 0 :: nat], queue_head = 1, queue_tail = 0,
                 num_elements_stored = 1, queue_overflow = False\<rparr> = Inr False"
  using contains_iff_valid [OF example_one, of "(=)" 5]
    contains_iff_valid [OF example_one, of "(=)" 0] example_one
  by (simp add: empty_q_def valid_elements_def ring_def)

text \<open>
  \<^bold>\<open>C7.\<close> For every queue state, \<^verbatim>\<open>clear()\<close> sets head, tail and count to 0 and the
  overflow flag to false, leaves the array as it was, and \<^verbatim>\<open>empty()\<close> is true afterwards.
\<close>

theorem clear_resets:
  "queue_head (clear q) = 0 \<and> queue_tail (clear q) = 0 \<and>
   num_elements_stored (clear q) = 0 \<and> queue_overflow (clear q) = False \<and>
   buffer (clear q) = buffer q \<and> empty_q (clear q)"
  by (simp add: clear_def empty_q_def)

text \<open>
  \<^bold>\<open>C8.\<close> For every capacity of at least 1, the constructor establishes and every
  mutator preserves \<open>queue_head < QUEUE_SIZE\<close>, \<open>queue_tail < QUEUE_SIZE\<close> and
  \<open>num_elements_stored \<le> QUEUE_SIZE\<close> (the members are unsigned, so they are never
  negative), over an array of \<^verbatim>\<open>QUEUE_SIZE\<close> slots. Under these bounds no operation
  that touches the array leaves it: \<^verbatim>\<open>push\<close>, \<^verbatim>\<open>front\<close>, \<^verbatim>\<open>back\<close> and \<^verbatim>\<open>contains\<close> all
  return a result, never \<open>Inl OutOfBounds\<close>. The queries \<^verbatim>\<open>front\<close>, \<^verbatim>\<open>back\<close>,
  \<^verbatim>\<open>contains\<close>, \<^verbatim>\<open>size\<close>, \<^verbatim>\<open>empty\<close> and \<^verbatim>\<open>full\<close> return no state, so they leave the
  bounds as they are. Hence the bounds hold in every reachable state.
\<close>

theorem indices_stay_in_bounds:
  "(0 < QUEUE_SIZE \<and> length buf = unat QUEUE_SIZE \<longrightarrow> in_bounds QUEUE_SIZE (SQueue_ctor buf)) \<and>
   (in_bounds QUEUE_SIZE q \<longrightarrow>
      (\<exists>rc q'. push QUEUE_SIZE e q = Inr (rc, q') \<and> in_bounds QUEUE_SIZE q') \<and>
      in_bounds QUEUE_SIZE (pop QUEUE_SIZE q) \<and>
      in_bounds QUEUE_SIZE (clear q) \<and>
      (\<exists>r. front q = Inr r) \<and> (\<exists>r. back_q QUEUE_SIZE q = Inr r) \<and>
      (\<exists>r. contains eq QUEUE_SIZE e q = Inr r)) \<and>
   (reachable QUEUE_SIZE q \<longrightarrow>
      queue_head q < QUEUE_SIZE \<and> queue_tail q < QUEUE_SIZE \<and>
      num_elements_stored q \<le> QUEUE_SIZE \<and> length (buffer q) = unat QUEUE_SIZE)"
proof (intro conjI impI)
  assume "0 < QUEUE_SIZE \<and> length buf = unat QUEUE_SIZE"
  then show "in_bounds QUEUE_SIZE (SQueue_ctor buf)" by (simp add: ctor_in_bounds)
next
  assume b: "in_bounds QUEUE_SIZE q"
  from push_succeeds [OF b] obtain rc q' where p: "push QUEUE_SIZE e q = Inr (rc, q')"
    by blast
  with b have "in_bounds QUEUE_SIZE q'" by (rule push_in_bounds)
  with p show "\<exists>rc q'. push QUEUE_SIZE e q = Inr (rc, q') \<and> in_bounds QUEUE_SIZE q'"
    by blast
  show "in_bounds QUEUE_SIZE (pop QUEUE_SIZE q)" using b by (rule pop_in_bounds)
  show "in_bounds QUEUE_SIZE (clear q)" using b by (rule clear_in_bounds)
  show "\<exists>r. front q = Inr r" by (simp add: front_read [OF b])
  show "\<exists>r. back_q QUEUE_SIZE q = Inr r" by (simp add: back_read [OF b])
  show "\<exists>r. contains eq QUEUE_SIZE e q = Inr r" by (simp add: contains_scan [OF b])
next
  assume "reachable QUEUE_SIZE q"
  then have b: "in_bounds QUEUE_SIZE q" by (rule reachable_in_bounds)
  then show "queue_head q < QUEUE_SIZE" "queue_tail q < QUEUE_SIZE"
    "num_elements_stored q \<le> QUEUE_SIZE" "length (buffer q) = unat QUEUE_SIZE"
    by (simp_all add: in_bounds_def)
qed

theorem indices_stay_in_bounds_witness:
  "(0 :: 32 word) < 3 \<and> length [0, 0, 0 :: nat] = unat (3 :: 32 word) \<and>
   in_bounds 3 (SQueue_ctor [0, 0, 0 :: nat]) \<and>
   (\<exists>rc q'. push 3 5 (SQueue_ctor [0, 0, 0 :: nat]) = Inr (rc, q') \<and> in_bounds 3 q') \<and>
   in_bounds 3 (pop 3 (SQueue_ctor [0, 0, 0 :: nat])) \<and>
   in_bounds 3 (clear (SQueue_ctor [0, 0, 0 :: nat])) \<and>
   reachable 3 (SQueue_ctor [0, 0, 0 :: nat]) \<and>
   length (buffer (SQueue_ctor [0, 0, 0 :: nat])) = unat (3 :: 32 word)"
proof -
  have h: "(0 :: 32 word) < 3 \<and> length [0, 0, 0 :: nat] = unat (3 :: 32 word)" by simp
  from indices_stay_in_bounds [of 3 "[0, 0, 0 :: nat]" "SQueue_ctor [0, 0, 0]" 5 "(=)"] h
    example_ctor
  show ?thesis by blast
qed

text \<open>
  \<^bold>\<open>C9.\<close> In every reachable state (the constructed one, and every state that pushes,
  pops and clears lead to from it) the head index equals tail plus count modulo
  \<^verbatim>\<open>QUEUE_SIZE\<close>, computed on the natural numbers. The relation \<open>head_follows\<close> holds
  after construction and after \<^verbatim>\<open>clear()\<close>, and every push, evicting or not, and every pop
  of a state within the index bounds preserves it.
\<close>

theorem head_is_tail_plus_count:
  "(reachable QUEUE_SIZE q \<longrightarrow>
      unat (queue_head q) =
        (unat (queue_tail q) + unat (num_elements_stored q)) mod unat QUEUE_SIZE) \<and>
   head_follows QUEUE_SIZE (SQueue_ctor buf) \<and>
   head_follows QUEUE_SIZE (clear q) \<and>
   (in_bounds QUEUE_SIZE q \<and> head_follows QUEUE_SIZE q \<longrightarrow>
      (\<forall>e rc q'. push QUEUE_SIZE e q = Inr (rc, q') \<longrightarrow> head_follows QUEUE_SIZE q') \<and>
      head_follows QUEUE_SIZE (pop QUEUE_SIZE q))"
proof (intro conjI impI allI)
  assume "reachable QUEUE_SIZE q"
  then have "sq_inv QUEUE_SIZE q" by (rule reachable_sq_inv)
  then show "unat (queue_head q) =
        (unat (queue_tail q) + unat (num_elements_stored q)) mod unat QUEUE_SIZE"
    by (simp add: sq_inv_def head_follows_def)
next
  show "head_follows QUEUE_SIZE (SQueue_ctor buf)"
    by (simp add: head_follows_def SQueue_ctor_def)
  show "head_follows QUEUE_SIZE (clear q)"
    by (simp add: head_follows_def clear_def)
next
  fix e rc q'
  assume "in_bounds QUEUE_SIZE q \<and> head_follows QUEUE_SIZE q"
    and "push QUEUE_SIZE e q = Inr (rc, q')"
  then show "head_follows QUEUE_SIZE q'" by (auto intro: head_follows_push)
next
  assume "in_bounds QUEUE_SIZE q \<and> head_follows QUEUE_SIZE q"
  then show "head_follows QUEUE_SIZE (pop QUEUE_SIZE q)" by (simp add: head_follows_pop)
qed

theorem head_is_tail_plus_count_witness:
  "reachable 3 \<lparr>buffer = [5, 0, 0 :: nat], queue_head = 1, queue_tail = 0,
                 num_elements_stored = 1, queue_overflow = False\<rparr> \<and>
   unat (1 :: 32 word) = (unat (0 :: 32 word) + unat (1 :: 32 word)) mod unat (3 :: 32 word) \<and>
   in_bounds 3 \<lparr>buffer = [5, 0, 0 :: nat], queue_head = 1, queue_tail = 0,
                 num_elements_stored = 1, queue_overflow = False\<rparr> \<and>
   head_follows 3 \<lparr>buffer = [5, 0, 0 :: nat], queue_head = 1, queue_tail = 0,
                 num_elements_stored = 1, queue_overflow = False\<rparr> \<and>
   head_follows 3 (pop 3 \<lparr>buffer = [5, 0, 0 :: nat], queue_head = 1, queue_tail = 0,
                 num_elements_stored = 1, queue_overflow = False\<rparr>)"
proof -
  let ?q = "\<lparr>buffer = [5, 0, 0 :: nat], queue_head = 1, queue_tail = 0,
             num_elements_stored = 1, queue_overflow = False\<rparr>"
  have b: "in_bounds 3 ?q" using example_one by (rule reachable_in_bounds)
  have h: "head_follows 3 ?q" by (simp add: head_follows_def)
  have a: "unat (1 :: 32 word) =
      (unat (0 :: 32 word) + unat (1 :: 32 word)) mod unat (3 :: 32 word)"
    by simp
  from head_is_tail_plus_count [of 3 ?q "[0, 0, 0]"] example_one b h a show ?thesis
    by blast
qed

text \<open>
  \<^bold>\<open>C10.\<close> Versions 1.1.0 and 1.0.0 cannot be told apart by a caller. Start both from
  their constructors, over arrays of the same capacity with any contents, and run the same
  sequence of push, pop and clear operations: neither version leaves its array, and after
  every operation the code returned by the push (0 or 1) and the results of front, back,
  size and empty are the same in both. The same holds before the first operation. A
  pointer returned by front or back is compared by whether it is null and by the element
  it points to: the two versions keep their elements in different slots.
\<close>

theorem versions_agree:
  assumes "0 < QUEUE_SIZE" and "length buf = unat QUEUE_SIZE"
    and "length buf0 = unat QUEUE_SIZE"
  shows "observe QUEUE_SIZE (SQueue_ctor buf) = observe_v100 QUEUE_SIZE (SQueue_ctor_v100 buf0) \<and>
         (\<exists>t. trace QUEUE_SIZE xs (SQueue_ctor buf) = Inr t \<and>
              trace_v100 QUEUE_SIZE xs (SQueue_ctor_v100 buf0) = Inr t \<and>
              length t = length xs)"
proof -
  have i: "sq_inv QUEUE_SIZE (SQueue_ctor buf)"
    and v: "valid_elements QUEUE_SIZE (SQueue_ctor buf) = []"
    using ctor_effect [OF assms(1,2)] by simp_all
  have i0: "sq_inv_v100 QUEUE_SIZE (SQueue_ctor_v100 buf0)"
    and v0: "valid_elements_v100 QUEUE_SIZE (SQueue_ctor_v100 buf0) = []"
    using ctor_v100_effect [OF assms(1,3)] by simp_all
  from v v0 have same: "valid_elements QUEUE_SIZE (SQueue_ctor buf) =
      valid_elements_v100 QUEUE_SIZE (SQueue_ctor_v100 buf0)"
    by simp
  from observe_same [OF i i0 same] trace_same [OF i i0 same, of xs]
  show ?thesis by auto
qed

theorem versions_agree_witness:
  "(0 :: 32 word) < 2 \<and> length [0, 0 :: nat] = unat (2 :: 32 word) \<and>
   length [1, 1 :: nat] = unat (2 :: 32 word) \<and>
   trace 2 [Push 7, Push 8, Push 9, Pop] (SQueue_ctor [0, 0 :: nat]) =
     Inr [(Some 0, Some 7, Some 7, 1, False), (Some 0, Some 7, Some 8, 2, False),
          (Some 1, Some 8, Some 9, 2, False), (None, Some 9, Some 9, 1, False)] \<and>
   trace_v100 2 [Push 7, Push 8, Push 9, Pop] (SQueue_ctor_v100 [1, 1 :: nat]) =
     Inr [(Some 0, Some 7, Some 7, 1, False), (Some 0, Some 7, Some 8, 2, False),
          (Some 1, Some 8, Some 9, 2, False), (None, Some 9, Some 9, 1, False)]"
proof -
  have h: "(0 :: 32 word) < 2" "length [0, 0 :: nat] = unat (2 :: 32 word)"
    "length [1, 1 :: nat] = unat (2 :: 32 word)"
    by simp_all
  have t: "trace 2 [Push 7, Push 8, Push 9, Pop] (SQueue_ctor [0, 0 :: nat]) =
     Inr [(Some 0, Some 7, Some 7, 1, False), (Some 0, Some 7, Some 8, 2, False),
          (Some 1, Some 8, Some 9, 2, False), (None, Some 9, Some 9, 1, False)]"
    by (simp add: push_def pop_def SQueue_ctor_def full_def array_write_def Let_def
        observe_def front_def back_q_def size_q_def empty_q_def array_read_def
        word_le_nat_alt)
  from versions_agree [OF h, of "[Push 7, Push 8, Push 9, Pop]"] t
  have "trace_v100 2 [Push 7, Push 8, Push 9, Pop] (SQueue_ctor_v100 [1, 1 :: nat]) =
     Inr [(Some 0, Some 7, Some 7, 1, False), (Some 0, Some 7, Some 8, 2, False),
          (Some 1, Some 8, Some 9, 2, False), (None, Some 9, Some 9, 1, False)]"
    by auto
  with h t show ?thesis by blast
qed

end
